theory Spec2Isabelle
  imports Main "HOL-Library.Word"
begin

unbundle bit_operations_syntax

section \<open>Data model of cache-sim.c\<close>

type_synonym u16 = "16 word"
type_synonym u32 = "32 word"
type_synonym u64 = "64 word"

text \<open>
  The \<^verbatim>\<open>options\<close> enumeration of \<^verbatim>\<open>ThreadInfo\<close>. A run has exactly one option:
  either no policy, the no-write-allocate policy (\<^verbatim>\<open>OPTION_WRITE_ON_MISS\<close>), or one of
  the two prefetch policies.
\<close>

datatype options_t =
  OPTION_NONE | OPTION_WRITE_ON_MISS | OPTION_PREFETCH_ALWAYS | OPTION_PREFETCH_ON_MISS

text \<open>
  \<^verbatim>\<open>ThreadInfo\<close>: \<^verbatim>\<open>unsigned\<close> is a 32-bit word. The union member \<^verbatim>\<open>pseudo_lru\<close> is never
  read by the simulators and the \<^verbatim>\<open>thread\<close> handle belongs to the driver; both are left out.
\<close>

record ThreadInfo =
  hits :: u32
  accesses :: u32
  kb :: u32
  ways :: u32
  options :: options_t

datatype op_t = LOAD | STORE

record Trace =
  op :: op_t
  addr :: u32

text \<open>
  \<^verbatim>\<open>struct set\<close>: three arrays of 16 entries. An array is a function from its index; the
  simulators below return \<open>None\<close> wherever the C code would index past entry 15.
\<close>

record set_t =
  tags :: "nat \<Rightarrow> u64"
  lru :: "nat \<Rightarrow> u64"
  valid :: "nat \<Rightarrow> bool"

type_synonym cache_t = "nat \<Rightarrow> set_t"

definition block_id_offset :: u64 where
  "block_id_offset = 5"

section \<open>Bit helpers\<close>

text \<open>\<^verbatim>\<open>while (n >>= 1) exp++;\<close>\<close>

function mylog2_loop :: "u32 \<Rightarrow> u32 \<Rightarrow> u32" where
  "mylog2_loop n exp =
     (let n' = drop_bit 1 n in
      if n' \<noteq> 0 then mylog2_loop n' (exp + 1) else exp)"
  by pat_completeness auto
termination
proof (relation "measure (\<lambda>(n, exp). unat n)")
  show "wf (measure (\<lambda>(n :: u32, exp :: u32). unat n))"
    by simp
next
  fix n exp n' :: u32
  assume "n' = drop_bit 1 n" and "n' \<noteq> 0"
  then have "unat n \<noteq> 0"
    by (auto simp: unat_eq_0)
  then have "unat n div 2 < unat n"
    by simp
  then show "((n', exp + 1), (n, exp)) \<in> measure (\<lambda>(n, exp). unat n)"
    using \<open>n' = drop_bit 1 n\<close> by (simp add: drop_bit_eq_div unat_div)
qed

declare mylog2_loop.simps [simp del]

definition mylog2 :: "u32 \<Rightarrow> u16" where
  "mylog2 n = ucast (mylog2_loop n 0)"

text \<open>
  \<^verbatim>\<open>~(UINT32_MAX << mylog2(range))\<close>: the shift and the complement are computed in 32 bits,
  the result is widened to 64 bits on return.
\<close>

definition bitmask :: "u32 \<Rightarrow> u64" where
  "bitmask rng = ucast (NOT (push_bit (unat (mylog2 rng)) (0xFFFFFFFF :: u32)))"

section \<open>Set-associative and direct-mapped simulation\<close>

text \<open>
  The three assignments \<^verbatim>\<open>s->tags[w] = tag; s->lru[w] = 0; s->valid[w] = true;\<close> of
  \<^verbatim>\<open>sim_set_associative_insert_tag\<close>.
\<close>

definition install :: "set_t \<Rightarrow> nat \<Rightarrow> u64 \<Rightarrow> set_t" where
  "install s w tag =
     s\<lparr>tags := (tags s)(w := tag), lru := (lru s)(w := 0), valid := (valid s)(w := True)\<rparr>"

text \<open>
  The loop of \<^verbatim>\<open>sim_set_associative_insert_tag\<close> from way \<open>w\<close> on, with the locals
  \<^verbatim>\<open>lru_way\<close> and \<^verbatim>\<open>lru_largest\<close> (both \<^verbatim>\<open>unsigned\<close>, so the 64-bit counter is truncated
  when it is stored in \<^verbatim>\<open>lru_largest\<close>, and widened again when compared). The early
  \<^verbatim>\<open>return\<close> ends the recursion; falling out of the loop overwrites \<^verbatim>\<open>lru_way\<close>.
\<close>

function insert_tag_loop :: "set_t \<Rightarrow> u64 \<Rightarrow> nat \<Rightarrow> nat \<Rightarrow> u32 \<Rightarrow> u32 \<Rightarrow> set_t option" where
  "insert_tag_loop s tag n w lru_way lru_largest =
     (if w < n then
        if 16 \<le> w then None
        else
          let (lru_largest', lru_way') =
                (if lru s w > ucast lru_largest then (ucast (lru s w), of_nat w)
                 else (lru_largest, lru_way))
          in if valid s w = False then Some (install s w tag)
             else insert_tag_loop s tag n (w + 1) lru_way' lru_largest'
      else if 16 \<le> unat lru_way then None
      else Some (install s (unat lru_way) tag))"
  by pat_completeness auto
termination
  by (relation "measure (\<lambda>(s, tag, n, w, lru_way, lru_largest). n - w)") auto

declare insert_tag_loop.simps [simp del]

text \<open>
  The parameter \<^verbatim>\<open>int ways\<close> is given as the number of iterations of
  \<^verbatim>\<open>for (int w = 0; w < ways; w++)\<close>, that is \<open>0\<close> for a negative value.
\<close>

definition sim_set_associative_insert_tag :: "set_t \<Rightarrow> u64 \<Rightarrow> nat \<Rightarrow> set_t option" where
  "sim_set_associative_insert_tag s tag n = insert_tag_loop s tag n 0 0 0"

text \<open>
  The scan loop of \<^verbatim>\<open>sim_set_associative_do\<close>: every counter is incremented, every
  matching way sets \<^verbatim>\<open>hit\<close> and has its counter cleared.
\<close>

definition do_way :: "u64 \<Rightarrow> nat \<Rightarrow> set_t \<times> bool \<Rightarrow> set_t \<times> bool" where
  "do_way tag w sh =
     (case sh of (s, hit) \<Rightarrow>
        let s1 = s\<lparr>lru := (lru s)(w := lru s w + 1)\<rparr>
        in if tags s1 w = tag then (s1\<lparr>lru := (lru s1)(w := 0)\<rparr>, True) else (s1, hit))"

definition sim_set_associative_do :: "set_t \<Rightarrow> u64 \<Rightarrow> nat \<Rightarrow> bool \<Rightarrow> (set_t \<times> bool) option" where
  "sim_set_associative_do s tag n no_modify =
     (if 16 < n then None
      else
        let (s1, hit) = fold (do_way tag) [0..<n] (s, False)
        in if \<not> hit \<and> \<not> no_modify then
             (case sim_set_associative_insert_tag s1 tag n of
                None \<Rightarrow> None
              | Some s2 \<Rightarrow> Some (s2, hit))
           else Some (s1, hit))"

text \<open>
  The constants computed before the replay loop of \<^verbatim>\<open>sim_set_associative\<close>:
  \<^verbatim>\<open>sets = (16 * 1024) / (32 * i->ways)\<close> (an unsigned 32-bit division, widened),
  \<^verbatim>\<open>log = mylog2(sets)\<close> and
  \<^verbatim>\<open>mask = (i->ways == 1) ? bitmask(i->kb * 1024 / 32) : bitmask(sets)\<close>.
\<close>

definition sa_sets :: "ThreadInfo \<Rightarrow> u64" where
  "sa_sets i = ucast (((16 * 1024) :: u32) div (32 * ways i))"

definition sa_log :: "ThreadInfo \<Rightarrow> u64" where
  "sa_log i = ucast (mylog2 (ucast (sa_sets i)))"

definition sa_mask :: "ThreadInfo \<Rightarrow> u64" where
  "sa_mask i =
     (if ways i = 1 then bitmask (kb i * 1024 div 32) else bitmask (ucast (sa_sets i)))"

text \<open>
  \<^verbatim>\<open>(addr >> block_id_offset) & mask\<close> and \<^verbatim>\<open>addr >> (block_id_offset + log)\<close>, on the
  address widened to 64 bits.
\<close>

definition set_index :: "u64 \<Rightarrow> u64 \<Rightarrow> u64" where
  "set_index msk a = drop_bit (unat block_id_offset) a AND msk"

definition tag_bits :: "u64 \<Rightarrow> u64 \<Rightarrow> u64" where
  "tag_bits lg a = drop_bit (unat (block_id_offset + lg)) a"

text \<open>
  One iteration of the replay loop of \<^verbatim>\<open>sim_set_associative\<close>. \<^verbatim>\<open>addr\<close> is a 64-bit
  variable, so \<^verbatim>\<open>addr + 32\<close> does not wrap at 32 bits. \<open>None\<close> stands for an index past
  \<^verbatim>\<open>cache[1023]\<close> or past way 15 of a set.
\<close>

definition sa_iter ::
  "u64 \<Rightarrow> u64 \<Rightarrow> u64 \<Rightarrow> Trace \<Rightarrow> cache_t \<times> ThreadInfo \<Rightarrow> (cache_t \<times> ThreadInfo) option" where
  "sa_iter sets lg msk t ci =
     (case ci of (cache, i) \<Rightarrow>
        let a = (ucast (addr t) :: u64);
            st = unat (set_index msk a);
            tag = tag_bits lg a
        in if 1024 \<le> st then None
           else if ways i = 1 then
             let tag = drop_bit 10 a
             in if tags (cache st) 0 = tag then Some (cache, i\<lparr>hits := hits i + 1\<rparr>)
                else Some (cache(st := (cache st)\<lparr>tags := (tags (cache st))(0 := tag)\<rparr>), i)
           else
             (case sim_set_associative_do (cache st) tag (nat (sint (ways i)))
                     (options i = OPTION_WRITE_ON_MISS \<and> op t = STORE) of
                None \<Rightarrow> None
              | Some (s1, hit) \<Rightarrow>
                  let cache1 = cache(st := s1);
                      i1 = i\<lparr>hits := hits i + of_bool hit\<rparr>
                  in if options i = OPTION_PREFETCH_ALWAYS \<or>
                        (options i = OPTION_PREFETCH_ON_MISS \<and> \<not> hit) then
                       let st2 = unat (set_index msk (a + 32));
                           tag2 = tag_bits (ucast (mylog2 (ucast sets))) (a + 32)
                       in if 1024 \<le> st2 then None
                          else
                            (case sim_set_associative_do (cache1 st2) tag2
                                    (nat (sint (ways i))) False of
                               None \<Rightarrow> None
                             | Some (s2, _) \<Rightarrow> Some (cache1(st2 := s2), i1))
                     else Some (cache1, i1)))"

text \<open>The replay loop: the iterations in trace order, stopping at the first undefined one.\<close>

fun sa_loop ::
  "u64 \<Rightarrow> u64 \<Rightarrow> u64 \<Rightarrow> Trace list \<Rightarrow> cache_t \<times> ThreadInfo \<Rightarrow> (cache_t \<times> ThreadInfo) option" where
  "sa_loop sets lg msk [] ci = Some ci"
| "sa_loop sets lg msk (t # ts) ci =
     (case sa_iter sets lg msk t ci of
        None \<Rightarrow> None
      | Some ci' \<Rightarrow> sa_loop sets lg msk ts ci')"

text \<open>\<^verbatim>\<open>struct set cache[1024] = {{{0}, {0}, {false}}}\<close>\<close>

definition empty_set :: set_t where
  "empty_set = \<lparr>tags = (\<lambda>_. 0), lru = (\<lambda>_. 0), valid = (\<lambda>_. False)\<rparr>"

definition empty_cache :: cache_t where
  "empty_cache = (\<lambda>_. empty_set)"

text \<open>
  \<^verbatim>\<open>sim_set_associative\<close>: the trace \<^verbatim>\<open>g_traces[0 .. g_traces_amt - 1]\<close> is the list
  \<open>g_traces\<close>; the array has room for 15000000 accesses, and the statements that need
  this bound assume it. A zero divisor in the computation of \<^verbatim>\<open>sets\<close> is undefined and
  gives \<open>None\<close>.
\<close>

definition sim_set_associative :: "ThreadInfo \<Rightarrow> Trace list \<Rightarrow> ThreadInfo option" where
  "sim_set_associative i g_traces =
     (if 32 * ways i = 0 then None
      else
        let i0 = i\<lparr>accesses := of_nat (length g_traces)\<rparr>
        in map_option snd
             (sa_loop (sa_sets i) (sa_log i) (sa_mask i) g_traces (empty_cache, i0)))"

text \<open>
  The set index and the tag that an iteration of \<^verbatim>\<open>sim_set_associative\<close> uses for the
  64-bit address \<open>a\<close>: the index is \<^verbatim>\<open>(addr >> block_id_offset) & mask\<close>; the tag is
  \<^verbatim>\<open>addr >> 10\<close> on the path for one way and \<^verbatim>\<open>addr >> (block_id_offset + log)\<close> otherwise.
\<close>

definition sa_decompose :: "ThreadInfo \<Rightarrow> u64 \<Rightarrow> u64 \<times> u64" where
  "sa_decompose i a =
     (set_index (sa_mask i) a, if ways i = 1 then drop_bit 10 a else tag_bits (sa_log i) a)"

section \<open>Fully associative simulation with recency counters\<close>

text \<open>
  \<^verbatim>\<open>struct block\<close> of \<^verbatim>\<open>sim_fully_associative\<close>; its fields \<^verbatim>\<open>tag\<close> and \<^verbatim>\<open>lru\<close> carry a
  prefix here. The array \<^verbatim>\<open>cache[512]\<close> is only indexed by loop counters below 512.
\<close>

record block_t =
  block_tag :: u64
  block_lru :: u64

type_synonym fa_cache_t = "nat \<Rightarrow> block_t"

text \<open>
  \<^verbatim>\<open>SIMFA_UNROLL1\<close> at slot \<open>b\<close>. The loop over \<^verbatim>\<open>b\<close> in steps of 8 with eight expansions
  of the macro visits the slots 0 to 511 in order.
\<close>

definition fa_search_slot :: "u64 \<Rightarrow> nat \<Rightarrow> fa_cache_t \<times> bool \<Rightarrow> fa_cache_t \<times> bool" where
  "fa_search_slot tag b ch =
     (case ch of (cache, hit) \<Rightarrow>
        let cache1 = cache(b := (cache b)\<lparr>block_lru := block_lru (cache b) + 1\<rparr>)
        in if \<not> hit \<and> block_tag (cache1 b) = tag
           then (cache1(b := (cache1 b)\<lparr>block_lru := 0\<rparr>), True)
           else (cache1, hit))"

text \<open>
  \<^verbatim>\<open>SIMFA_UNROLL2\<close> from slot \<open>w\<close> on; \<^verbatim>\<open>break\<close> leaves the loop. The result is the cache,
  \<^verbatim>\<open>hasempty\<close> and \<^verbatim>\<open>lru_block\<close>. \<^verbatim>\<open>lru_block\<close> and \<^verbatim>\<open>lru_largest\<close> are \<^verbatim>\<open>unsigned\<close>.
\<close>

function fa_insert_loop ::
  "fa_cache_t \<Rightarrow> u64 \<Rightarrow> nat \<Rightarrow> u32 \<Rightarrow> u32 \<Rightarrow> fa_cache_t \<times> bool \<times> u32" where
  "fa_insert_loop cache tag w lru_block lru_largest =
     (if w < 512 then
        let (lru_largest', lru_block') =
              (if block_lru (cache w) > ucast lru_largest
               then (ucast (block_lru (cache w)), of_nat w)
               else (lru_largest, lru_block))
        in if block_tag (cache w) = 0
           then (cache(w := \<lparr>block_tag = tag, block_lru = 0\<rparr>), True, lru_block')
           else fa_insert_loop cache tag (w + 1) lru_block' lru_largest'
      else (cache, False, lru_block))"
  by pat_completeness auto
termination
  by (relation "measure (\<lambda>(cache, tag, w, lru_block, lru_largest). 512 - w)") auto

declare fa_insert_loop.simps [simp del]

definition fa_iter :: "Trace \<Rightarrow> fa_cache_t \<times> ThreadInfo \<Rightarrow> fa_cache_t \<times> ThreadInfo" where
  "fa_iter t ci =
     (case ci of (cache, i) \<Rightarrow>
        let a = (ucast (addr t) :: u64);
            tag = drop_bit (unat block_id_offset) a;
            (cache1, hit) = fold (fa_search_slot tag) [0..<512] (cache, False)
        in if hit then (cache1, i\<lparr>hits := hits i + 1\<rparr>)
           else
             let (cache2, hasempty, lru_block) = fa_insert_loop cache1 tag 0 0 0
             in if \<not> hasempty
                then (cache2(unat lru_block := \<lparr>block_tag = tag, block_lru = 0\<rparr>), i)
                else (cache2, i))"

definition fa_empty_cache :: fa_cache_t where
  "fa_empty_cache = (\<lambda>_. \<lparr>block_tag = 0, block_lru = 0\<rparr>)"

definition sim_fully_associative :: "ThreadInfo \<Rightarrow> Trace list \<Rightarrow> ThreadInfo" where
  "sim_fully_associative i g_traces =
     snd (fold fa_iter g_traces (fa_empty_cache, i\<lparr>accesses := of_nat (length g_traces)\<rparr>))"

section \<open>Fully associative simulation with the pseudo-LRU tree\<close>

text \<open>
  \<^verbatim>\<open>lru_cache[1024]\<close>: entries 0 to 510 are the bits of the tree, entries 511 to 1022 the
  cached tags. Node \<open>n\<close> has the children \<open>2 * n + 1\<close> and \<open>2 * n + 2\<close>.
\<close>

type_synonym lru_cache_t = "nat \<Rightarrow> u64"

text \<open>\<^verbatim>\<open>for (int block = 511; block < 1023; block++) if (lru_cache[block] == tag)\<close>: the
  first leaf holding the tag, from \<open>block\<close> on.\<close>

function plru_scan :: "lru_cache_t \<Rightarrow> u64 \<Rightarrow> nat \<Rightarrow> nat option" where
  "plru_scan lc tag block =
     (if block < 1023 then
        if lc block = tag then Some block else plru_scan lc tag (block + 1)
      else None)"
  by pat_completeness auto
termination
  by (relation "measure (\<lambda>(lc, tag, block). 1023 - block)") auto

declare plru_scan.simps [simp del]

text \<open>
  \<^verbatim>\<open>do lru_cache[(block - 1) / 2] = (block % 2) ? 0 : 1; while ((block = (block - 1) / 2));\<close>
  It is entered with \<open>block \<ge> 511\<close> only, where the \<^verbatim>\<open>int\<close> arithmetic of the source
  and the arithmetic of \<open>nat\<close> agree.
\<close>

function plru_touch :: "lru_cache_t \<Rightarrow> nat \<Rightarrow> lru_cache_t" where
  "plru_touch lc block =
     (let lc' = lc((block - 1) div 2 := (if block mod 2 \<noteq> 0 then 0 else 1));
          block' = (block - 1) div 2
      in if block' \<noteq> 0 then plru_touch lc' block' else lc')"
  by pat_completeness auto
termination
  by (relation "measure (\<lambda>(lc, block). block)") auto

declare plru_touch.simps [simp del]

text \<open>
  \<^verbatim>\<open>for (tmp; tmp < 511; tmp = 2 * tmp + (!(lru_cache[tmp] = !lru_cache[tmp]) ? 1 : 2));\<close>
  The bit is negated first, and the negated bit chooses the child.
\<close>

function plru_walk :: "lru_cache_t \<Rightarrow> nat \<Rightarrow> lru_cache_t \<times> nat" where
  "plru_walk lc tmp =
     (if tmp < 511 then
        let lc' = lc(tmp := (if lc tmp = 0 then 1 else 0))
        in plru_walk lc' (2 * tmp + (if lc' tmp = 0 then 1 else 2))
      else (lc, tmp))"
  by pat_completeness auto
termination
  by (relation "measure (\<lambda>(lc, tmp). 511 - tmp)") auto

declare plru_walk.simps [simp del]

text \<open>
  One iteration of the replay loop of \<^verbatim>\<open>sim_fully_associative_pseudo\<close>. C does not
  sequence the two reads of \<^verbatim>\<open>hit = (i->hits++ - i->hits)\<close>; the model reads them from left
  to right: the old counter minus the incremented one, which is never zero, so that
  \<^verbatim>\<open>hit\<close> is set and the victim walk is skipped. \<^verbatim>\<open>hits\<close> is incremented once in either
  reading.
\<close>

definition plru_iter :: "Trace \<Rightarrow> lru_cache_t \<times> ThreadInfo \<Rightarrow> lru_cache_t \<times> ThreadInfo" where
  "plru_iter t ci =
     (case ci of (lc, i) \<Rightarrow>
        let a = (ucast (addr t) :: u64);
            tag = drop_bit (unat block_id_offset) a;
            (lc1, i1, hit) =
              (case plru_scan lc tag 511 of
                 None \<Rightarrow> (lc, i, False)
               | Some block \<Rightarrow>
                   (plru_touch lc block, i\<lparr>hits := hits i + 1\<rparr>, hits i - (hits i + 1) \<noteq> 0))
        in if \<not> hit then
             let (lc2, tmp) = plru_walk lc1 0 in (lc2(tmp := tag), i1)
           else (lc1, i1))"

definition sim_fully_associative_pseudo :: "ThreadInfo \<Rightarrow> Trace list \<Rightarrow> ThreadInfo" where
  "sim_fully_associative_pseudo i g_traces =
     snd (fold plru_iter g_traces ((\<lambda>_. 0), i\<lparr>accesses := of_nat (length g_traces)\<rparr>))"

section \<open>Auxiliary notions for the statements\<close>

text \<open>The integer logarithm that \<^verbatim>\<open>mylog2\<close> computes, on natural numbers.\<close>

fun floor_log2 :: "nat \<Rightarrow> nat" where
  "floor_log2 n = (if n < 2 then 0 else Suc (floor_log2 (n div 2)))"

declare floor_log2.simps [simp del]

text \<open>A set after the scan loop of a miss over its first \<open>n\<close> ways: every counter is one older.\<close>

definition aged :: "set_t \<Rightarrow> nat \<Rightarrow> set_t" where
  "aged s n = s\<lparr>lru := (\<lambda>w. if w < n then lru s w + 1 else lru s w)\<rparr>"

text \<open>
  The loop invariant of the two insertion loops before slot \<open>w\<close>, for the array \<open>f\<close> of
  recency counters: \<^verbatim>\<open>lru_way\<close> (or \<^verbatim>\<open>lru_block\<close>) is the first slot among those scanned
  that holds the largest counter, and \<^verbatim>\<open>lru_largest\<close> is that counter.
\<close>

definition lru_inv :: "(nat \<Rightarrow> u64) \<Rightarrow> nat \<Rightarrow> u32 \<Rightarrow> u32 \<Rightarrow> bool" where
  "lru_inv f w m L \<longleftrightarrow>
     (\<forall>j<w. f j \<le> ucast L) \<and>
     (0 < w \<longrightarrow> ucast L = f (unat m) \<and> unat m < w) \<and>
     (w = 0 \<longrightarrow> m = 0 \<and> L = 0) \<and>
     (\<forall>j<unat m. f j < f (unat m))"

text \<open>
  How one iteration of a replay loop, and a run of \<open>n\<close> iterations, may change a
  \<^verbatim>\<open>ThreadInfo\<close>: only \<^verbatim>\<open>hits\<close> changes, by at most one per iteration.
\<close>

definition hits_step :: "ThreadInfo \<Rightarrow> ThreadInfo \<Rightarrow> bool" where
  "hits_step i i' \<longleftrightarrow> i' = i\<lparr>hits := hits i'\<rparr> \<and> (hits i' = hits i \<or> hits i' = hits i + 1)"

definition hits_run :: "nat \<Rightarrow> ThreadInfo \<Rightarrow> ThreadInfo \<Rightarrow> bool" where
  "hits_run n i i' \<longleftrightarrow>
     i' = i\<lparr>hits := hits i'\<rparr> \<and> unat (hits i) \<le> unat (hits i') \<and> unat (hits i') \<le> unat (hits i) + n"

text \<open>
  The decomposition as the specification words it, for a cache of \<open>totalSizeKB\<close> kilobytes
  with \<open>nways\<close> ways and 32-byte lines: \<open>numSets = totalSizeBytes / (32 * ways)\<close>,
  \<open>index = (address >> 5) & (numSets - 1)\<close>, \<open>tag = address >> (5 + log2 numSets)\<close>.
\<close>

definition spec_numSets :: "nat \<Rightarrow> nat \<Rightarrow> nat" where
  "spec_numSets totalSizeKB nways = (totalSizeKB * 1024) div (32 * nways)"

definition spec_decompose :: "nat \<Rightarrow> nat \<Rightarrow> u64 \<Rightarrow> u64 \<times> u64" where
  "spec_decompose totalSizeKB nways a =
     (let numSets = spec_numSets totalSizeKB nways
      in (drop_bit 5 a AND (of_nat numSets - 1), drop_bit (5 + floor_log2 numSets) a))"

text \<open>
  One access of the scan-and-allocate algorithm \<^verbatim>\<open>sim_set_associative_do\<close> to the 64-bit
  address \<open>a\<close>, on the set that the engine's decomposition gives for \<open>a\<close>: the new cache
  and whether the access hit. No counter of \<^verbatim>\<open>ThreadInfo\<close> is involved.
\<close>

definition sa_access :: "ThreadInfo \<Rightarrow> cache_t \<Rightarrow> u64 \<Rightarrow> bool \<Rightarrow> (cache_t \<times> bool) option" where
  "sa_access i c a no_modify =
     (case sa_decompose i a of
        (st, tag) \<Rightarrow>
          if 1024 \<le> unat st then None
          else map_option (\<lambda>(s', hit). (c(unat st := s'), hit))
                 (sim_set_associative_do (c (unat st)) tag (nat (sint (ways i))) no_modify))"

text \<open>
  The relation between a smaller and a larger direct-mapped cache (index masks of \<open>k1\<close> and
  \<open>k2\<close> bits) replaying the same trace: whatever address would hit in the smaller cache
  would hit in the larger one.
\<close>

definition dm_update :: "cache_t \<Rightarrow> nat \<Rightarrow> u64 \<Rightarrow> cache_t" where
  "dm_update c st tag = c(st := (c st)\<lparr>tags := (tags (c st))(0 := tag)\<rparr>)"

definition dm_rel :: "nat \<Rightarrow> nat \<Rightarrow> cache_t \<Rightarrow> cache_t \<Rightarrow> bool" where
  "dm_rel k1 k2 c1 c2 \<longleftrightarrow>
     (\<forall>a :: u64. tags (c1 (unat (set_index (mask k1) a))) 0 = drop_bit 10 a \<longrightarrow>
                 tags (c2 (unat (set_index (mask k2) a))) 0 = drop_bit 10 a)"

text \<open>
  The fully associative cache after the search loop of a miss: the counter of every one of
  the 512 slots is one older.
\<close>

definition fa_aged :: "fa_cache_t \<Rightarrow> fa_cache_t" where
  "fa_aged c = (\<lambda>b. if b < 512 then (c b)\<lparr>block_lru := block_lru (c b) + 1\<rparr> else c b)"

text \<open>
  The pseudo-LRU tree. \<open>plru_stale lc n\<close> is the child of the internal node \<open>n\<close> that the
  bit of \<open>n\<close> marks as stale in the state \<open>lc\<close>: the right child \<open>2 * n + 2\<close> for the bit 0 and
  the left child \<open>2 * n + 1\<close> otherwise. \<open>descend lc n\<close> follows the stale children from \<open>n\<close> to
  a leaf without changing any bit, and \<open>path_down lc n\<close> lists the internal nodes on that
  way. \<open>path_up n\<close> lists the nodes from \<open>n\<close> up to the child of the root, and \<open>sibling n\<close> is
  the other child of the parent of \<open>n\<close>.
\<close>

definition plru_stale :: "lru_cache_t \<Rightarrow> nat \<Rightarrow> nat" where
  "plru_stale lc n = 2 * n + (if lc n = 0 then 2 else 1)"

function descend :: "lru_cache_t \<Rightarrow> nat \<Rightarrow> nat" where
  "descend lc n = (if n < 511 then descend lc (plru_stale lc n) else n)"
  by pat_completeness auto
termination
  by (relation "measure (\<lambda>(lc, n). 511 - n)") (auto simp: plru_stale_def)

declare descend.simps [simp del]

function path_down :: "lru_cache_t \<Rightarrow> nat \<Rightarrow> nat list" where
  "path_down lc n = (if n < 511 then n # path_down lc (plru_stale lc n) else [])"
  by pat_completeness auto
termination
  by (relation "measure (\<lambda>(lc, n). 511 - n)") (auto simp: plru_stale_def)

declare path_down.simps [simp del]

function path_up :: "nat \<Rightarrow> nat list" where
  "path_up n = (if n = 0 then [] else n # path_up ((n - 1) div 2))"
  by pat_completeness auto
termination
  by (relation "measure (\<lambda>n. n)") auto

declare path_up.simps [simp del]

definition sibling :: "nat \<Rightarrow> nat" where
  "sibling n = (if odd n then n + 1 else n - 1)"



section \<open>The bit helpers\<close>

lemma floor_log2_bounds: "0 < n \<Longrightarrow> 2 ^ floor_log2 n \<le> n \<and> n < 2 ^ (floor_log2 n + 1)"
proof (induction n rule: floor_log2.induct)
  case (1 n)
  show ?case
  proof (cases "n < 2")
    case True
    with 1(2) show ?thesis by (simp add: floor_log2.simps [of n])
  next
    case False
    then have "0 < n div 2" by simp
    with 1(1) False have ih: "2 ^ floor_log2 (n div 2) \<le> n div 2" "n div 2 < 2 ^ (floor_log2 (n div 2) + 1)"
      by simp_all
    from False have eq: "floor_log2 n = Suc (floor_log2 (n div 2))"
      by (simp add: floor_log2.simps [of n])
    from ih show ?thesis unfolding eq by simp arith
  qed
qed

lemma floor_log2_less: "n < 2 ^ k \<Longrightarrow> 0 < k \<Longrightarrow> floor_log2 n < k"
proof (induction n arbitrary: k rule: floor_log2.induct)
  case (1 n)
  show ?case
  proof (cases "n < 2")
    case True
    with 1(3) show ?thesis by (simp add: floor_log2.simps [of n])
  next
    case False
    from 1(3) obtain k' where k: "k = Suc k'" by (cases k) auto
    with 1(2) have "n div 2 < 2 ^ k'" by simp
    moreover from False 1(2) k have "0 < k'" by (cases k') auto
    ultimately have "floor_log2 (n div 2) < k'" using 1(1) False by simp
    with False k show ?thesis by (simp add: floor_log2.simps [of n])
  qed
qed

lemma floor_log2_mono: "m \<le> n \<Longrightarrow> floor_log2 m \<le> floor_log2 n"
proof (induction n arbitrary: m rule: floor_log2.induct)
  case (1 n)
  show ?case
  proof (cases "m < 2")
    case True
    then show ?thesis by (simp add: floor_log2.simps [of m])
  next
    case False
    with 1(2) have n2: "\<not> n < 2" by simp
    from 1(2) have "m div 2 \<le> n div 2" by (rule div_le_mono)
    with 1(1) n2 have "floor_log2 (m div 2) \<le> floor_log2 (n div 2)" by simp
    with False n2 show ?thesis by (simp add: floor_log2.simps [of m] floor_log2.simps [of n])
  qed
qed

lemma mylog2_loop_eq: "mylog2_loop n e = e + of_nat (floor_log2 (unat n))"
proof (induction n e rule: mylog2_loop.induct)
  case (1 n e)
  have d: "unat (drop_bit 1 n) = unat n div 2"
    by (simp add: drop_bit_eq_div unat_div)
  show ?case
  proof (cases "drop_bit 1 n = 0")
    case True
    then have "unat n div 2 = 0" using d by simp
    then have "unat n < 2" by simp
    then show ?thesis using True
      by (simp add: mylog2_loop.simps [of n e] floor_log2.simps [of "unat n"])
  next
    case False
    then have "unat (drop_bit 1 n) \<noteq> 0" by (simp only: unsigned_eq_0_iff not_False_eq_True)
    then have "unat n div 2 \<noteq> 0" unfolding d .
    then have n2: "\<not> unat n < 2" by simp
    have "mylog2_loop n e = mylog2_loop (drop_bit 1 n) (e + 1)"
      using False by (simp add: mylog2_loop.simps [of n e] Let_def)
    also have "\<dots> = e + 1 + of_nat (floor_log2 (unat n div 2))"
      using 1 False d by simp
    finally show ?thesis using n2
      by (simp add: floor_log2.simps [of "unat n"])
  qed
qed

lemma floor_log2_u32: "floor_log2 (unat (n :: u32)) < 32"
proof -
  have "unat n < 2 ^ 32" using unsigned_less [of n] by simp
  then show ?thesis by (rule floor_log2_less) simp
qed

lemma unat_mylog2: "unat (mylog2 n) = floor_log2 (unat n)"
proof -
  have "floor_log2 (unat n) < 32" by (rule floor_log2_u32)
  then show ?thesis
    by (simp add: mylog2_def mylog2_loop_eq unsigned_ucast_eq unat_of_nat take_bit_eq_mod)
qed

lemma not_push_bit_ones: "NOT (push_bit k (0xFFFFFFFF :: u32)) = mask k"
proof -
  have "(0xFFFFFFFF :: u32) = - 1" by simp
  then show ?thesis by (simp only: push_bit_minus_one_eq_not_mask bit.double_compl)
qed

lemma bitmask_eq: "bitmask n = mask (floor_log2 (unat n))"
proof -
  have k: "floor_log2 (unat n) < 32" by (rule floor_log2_u32)
  then have "bitmask n = ucast (mask (floor_log2 (unat n)) :: u32)"
    by (simp add: bitmask_def unat_mylog2 not_push_bit_ones)
  also have "\<dots> = mask (floor_log2 (unat n))"
    using k by (intro bit_word_eqI) (auto simp: bit_simps)
  finally show ?thesis .
qed

section \<open>Scan and insertion in one set\<close>

lemma do_fold:
  "fold (do_way tag) [0..<n] (s, h) =
     (s\<lparr>lru := (\<lambda>w. if w < n then (if tags s w = tag then 0 else lru s w + 1) else lru s w)\<rparr>,
      h \<or> (\<exists>w<n. tags s w = tag))"
proof (induction n)
  case 0
  show ?case by simp
next
  case (Suc n)
  have "(\<exists>w<Suc n. tags s w = tag) \<longleftrightarrow> (\<exists>w<n. tags s w = tag) \<or> tags s n = tag"
    by (auto simp: less_Suc_eq)
  then show ?case
    using Suc by (auto simp: do_way_def Let_def fun_eq_iff)
qed

lemma do_fold_miss:
  "\<forall>w<n. tags s w \<noteq> tag \<Longrightarrow> fold (do_way tag) [0..<n] (s, False) = (aged s n, False)"
  by (simp add: do_fold aged_def fun_eq_iff)

lemma insert_tag_loop_invalid:
  assumes "w \<le> v" "v < n" "n \<le> 16" "\<not> valid s v" "\<forall>j. w \<le> j \<and> j < v \<longrightarrow> valid s j"
  shows "insert_tag_loop s tag n w m L = Some (install s v tag)"
  using assms
proof (induction s tag n w m L rule: insert_tag_loop.induct)
  case (1 s tag n w m L)
  show ?case
  proof (cases "w = v")
    case True
    with 1(3-) show ?thesis
      by (subst insert_tag_loop.simps) (simp add: Let_def split: prod.splits)
  next
    case False
    with 1(2) have wv: "w < v" by simp
    with 1(6) have vw: "valid s w" by simp
    from wv 1(3,4) have w: "w < n" "\<not> 16 \<le> w" by simp_all
    show ?thesis
      using w vw wv 1(3-) 1(1)
      by (subst insert_tag_loop.simps) (simp add: Let_def split: prod.splits if_splits)
  qed
qed

lemma ucast_down_up:
  fixes x :: u64
  assumes "x < 2 ^ 32"
  shows "(ucast (ucast x :: u32) :: u64) = x"
proof -
  from assms have "unat x < 2 ^ 32"
    by (simp add: word_less_nat_alt)
  then have "take_bit 32 (unat x) = unat x"
    by (simp add: take_bit_nat_eq_self_iff)
  then have "unat (ucast (ucast x :: u32) :: u64) = unat x"
    by (simp add: unsigned_ucast_eq unsigned_take_bit_eq)
  then show ?thesis
    by (simp only: word_unat_eq_iff)
qed

lemma unat_of_nat_way: "w < 16 \<Longrightarrow> unat (of_nat w :: u32) = w"
  by (simp add: unat_of_nat)

lemma lru_inv_step:
  assumes inv: "lru_inv f w m L" and w: "w < 2 ^ 32" and b: "f w < 2 ^ 32"
  shows "lru_inv f (Suc w)
           (if f w > ucast L then of_nat w else m)
           (if f w > ucast L then ucast (f w) else L)"
proof (cases "f w > ucast L")
  case True
  have m': "unat (of_nat w :: u32) = w" using w by (simp add: unat_of_nat)
  have L': "(ucast (ucast (f w) :: u32) :: u64) = f w" using b by (rule ucast_down_up)
  have "\<forall>j<w. f j < f w"
    using inv True unfolding lru_inv_def by (meson le_less_trans)
  then show ?thesis
    using True by (auto simp: lru_inv_def m' L' less_Suc_eq)
next
  case False
  then have le: "f w \<le> ucast L" by simp
  show ?thesis
  proof (cases "w = 0")
    case True
    with inv have "m = 0" "L = 0" unfolding lru_inv_def by simp_all
    with le True show ?thesis unfolding lru_inv_def by (simp add: False)
  next
    case False
    with inv le \<open>\<not> f w > ucast L\<close> show ?thesis
      unfolding lru_inv_def by (auto simp: less_Suc_eq)
  qed
qed

lemma lru_inv_bound: "lru_inv f w m L \<Longrightarrow> w \<le> n \<Longrightarrow> 0 < n \<Longrightarrow> unat m < n"
  by (cases "w = 0") (auto simp: lru_inv_def)

lemma insert_tag_loop_full:
  assumes "\<forall>j<n. valid s j" "n \<le> 16" "\<forall>j<n. lru s j < 2 ^ 32" "w \<le> n" "lru_inv (lru s) w m L"
  shows "\<exists>v. insert_tag_loop s tag n w m L = Some (install s v tag) \<and> (0 < n \<longrightarrow> v < n) \<and>
           (\<forall>j<n. lru s j \<le> lru s v) \<and> (\<forall>j<v. lru s j < lru s v)"
  using assms
proof (induction s tag n w m L rule: insert_tag_loop.induct)
  case (1 s tag n w m L)
  show ?case
  proof (cases "w < n")
    case True
    with 1(3) have w16: "w < 16" by simp
    from True 1(2) have vw: "valid s w" by simp
    from True 1(4) have b: "lru s w < 2 ^ 32" by simp
    let ?m' = "if lru s w > ucast L then of_nat w else m"
    let ?L' = "if lru s w > ucast L then ucast (lru s w) else L"
    from w16 have "w < 2 ^ 32" by simp
    with 1(6) have inv': "lru_inv (lru s) (Suc w) ?m' ?L'"
      using b by (rule lru_inv_step)
    have step: "insert_tag_loop s tag n w m L = insert_tag_loop s tag n (w + 1) ?m' ?L'"
      using True w16 vw by (subst insert_tag_loop.simps) (simp add: Let_def)
    have "\<exists>v. insert_tag_loop s tag n (w + 1) ?m' ?L' = Some (install s v tag) \<and>
            (0 < n \<longrightarrow> v < n) \<and> (\<forall>j<n. lru s j \<le> lru s v) \<and> (\<forall>j<v. lru s j < lru s v)"
    proof (rule 1(1) [where x = "(?L', ?m')"])
      show "w < n" by fact
      show "\<not> 16 \<le> w" using w16 by simp
      show "(?L', ?m') = (if ucast L < lru s w then (ucast (lru s w), word_of_nat w) else (L, m))"
        by simp
      show "(?L', ?m') = (?L', ?m')" by simp
      show "valid s w \<noteq> False" using vw by simp
      show "\<forall>j<n. valid s j" by fact
      show "n \<le> 16" by fact
      show "\<forall>j<n. lru s j < 2 ^ 32" by fact
      show "w + 1 \<le> n" using True by simp
      show "lru_inv (lru s) (w + 1) ?m' ?L'" using inv' by simp
    qed
    then show ?thesis unfolding step .
  next
    case False
    with 1(5) have wn: "w = n" by simp
    from wn 1(3) have "w \<le> 16" by simp
    with 1(6) have m16: "unat m < 16" by (rule lru_inv_bound) simp
    have res: "insert_tag_loop s tag n w m L = Some (install s (unat m) tag)"
      using False m16 by (subst insert_tag_loop.simps) simp
    have "(0 < n \<longrightarrow> unat m < n) \<and> (\<forall>j<n. lru s j \<le> lru s (unat m)) \<and>
          (\<forall>j<unat m. lru s j < lru s (unat m))"
      using 1(6) unfolding lru_inv_def wn by auto
    with res show ?thesis by blast
  qed
qed

lemma lru_inv_init: "lru_inv f 0 0 0"
  by (simp add: lru_inv_def)

lemma insert_tag_loop_total:
  "n \<le> 16 \<Longrightarrow> unat m < 16 \<Longrightarrow> \<exists>v<16. insert_tag_loop s tag n w m L = Some (install s v tag)"
proof (induction s tag n w m L rule: insert_tag_loop.induct)
  case (1 s tag n w m L)
  show ?case
  proof (cases "w < n")
    case False
    with 1(3) show ?thesis by (subst insert_tag_loop.simps) auto
  next
    case True
    with 1(2) have w16: "w < 16" by simp
    show ?thesis
    proof (cases "valid s w")
      case False
      with True w16 show ?thesis
        by (subst insert_tag_loop.simps) (auto simp: Let_def)
    next
      case vw: True
      let ?m' = "if lru s w > ucast L then of_nat w else m"
      let ?L' = "if lru s w > ucast L then ucast (lru s w) else L"
      have step: "insert_tag_loop s tag n w m L = insert_tag_loop s tag n (w + 1) ?m' ?L'"
        using True w16 vw by (subst insert_tag_loop.simps) (simp add: Let_def)
      have m': "unat ?m' < 16" using 1(3) w16 by (simp add: unat_of_nat_way)
      have "\<exists>v<16. insert_tag_loop s tag n (w + 1) ?m' ?L' = Some (install s v tag)"
      proof (rule 1(1) [where x = "(?L', ?m')"])
        show "w < n" by fact
        show "\<not> 16 \<le> w" using w16 by simp
        show "(?L', ?m') = (if ucast L < lru s w then (ucast (lru s w), word_of_nat w) else (L, m))"
          by simp
        show "(?L', ?m') = (?L', ?m')" by simp
        show "valid s w \<noteq> False" using vw by simp
        show "n \<le> 16" by fact
        show "unat ?m' < 16" by (rule m')
      qed
      then show ?thesis unfolding step .
    qed
  qed
qed

lemma aged_simps [simp]:
  "tags (aged s n) = tags s" "valid (aged s n) = valid s"
  "lru (aged s n) w = (if w < n then lru s w + 1 else lru s w)"
  by (simp_all add: aged_def)

lemma do_miss_no_modify:
  assumes "n \<le> 16" "\<forall>w<n. tags s w \<noteq> tag"
  shows "sim_set_associative_do s tag n True = Some (aged s n, False)"
  using assms by (simp add: sim_set_associative_do_def do_fold_miss)

lemma do_miss_insert:
  assumes "n \<le> 16" "\<forall>w<n. tags s w \<noteq> tag"
  shows "sim_set_associative_do s tag n False =
           map_option (\<lambda>s'. (s', False)) (sim_set_associative_insert_tag (aged s n) tag n)"
  using assms by (simp add: sim_set_associative_do_def do_fold_miss split: option.splits)

section \<open>The replay loops and their counters\<close>

lemma unat_and_mask_less: "unat ((x :: u64) AND mask k) < 2 ^ k"
proof -
  have "unat (x AND mask k) = take_bit k (unat x)"
    by (metis take_bit_eq_mask unsigned_take_bit_eq)
  then show ?thesis by simp
qed

lemma set_index_less: "k \<le> 10 \<Longrightarrow> unat (set_index (mask k) a) < 1024"
proof -
  assume "k \<le> 10"
  then have "(2 :: nat) ^ k \<le> 2 ^ 10" by (intro power_increasing) simp_all
  moreover have "unat (set_index (mask k) a) < 2 ^ k"
    unfolding set_index_def by (rule unat_and_mask_less)
  ultimately show ?thesis by simp
qed

lemma do_defined:
  assumes "n \<le> 16"
  shows "\<exists>s'. sim_set_associative_do s tag n nm = Some (s', \<exists>w<n. tags s w = tag)"
proof -
  obtain s1 where s1: "fold (do_way tag) [0..<n] (s, False) = (s1, \<exists>w<n. tags s w = tag)"
    by (simp add: do_fold)
  have "\<exists>v<16. insert_tag_loop s1 tag n 0 0 0 = Some (install s1 v tag)"
    using assms by (intro insert_tag_loop_total) simp_all
  then show ?thesis
    using assms s1 by (auto simp: sim_set_associative_do_def sim_set_associative_insert_tag_def)
qed

lemma hits_run_0: "hits_run 0 i i"
  by (simp add: hits_run_def)

lemma hits_run_Suc:
  assumes "hits_step i i1" "hits_run n i1 i'" "unat (hits i) + Suc n < 2 ^ 32"
  shows "hits_run (Suc n) i i'"
proof -
  from assms(3) have "unat (hits i) + 1 < 2 ^ 32" by simp
  then have "unat (hits i + 1) = unat (hits i) + 1"
    by (simp add: unat_word_ariths)
  with assms(1) have b: "unat (hits i) \<le> unat (hits i1)" "unat (hits i1) \<le> unat (hits i) + 1"
    by (auto simp: hits_step_def)
  from assms(1) have e1: "i1 = i\<lparr>hits := hits i1\<rparr>" by (simp add: hits_step_def)
  from assms(2) have e2: "i' = i1\<lparr>hits := hits i'\<rparr>" by (simp add: hits_run_def)
  have "i' = i\<lparr>hits := hits i'\<rparr>" by (subst e2, subst e1) simp
  with b assms(2) show ?thesis by (simp add: hits_run_def)
qed

lemma hits_step_fields:
  "hits_step i i' \<Longrightarrow> ways i' = ways i \<and> kb i' = kb i \<and> options i' = options i \<and> accesses i' = accesses i"
  by (metis hits_step_def ThreadInfo.select_convs(2-5) ThreadInfo.surjective ThreadInfo.update_convs(1))

lemma sa_iter_hits:
  assumes "sa_iter sets lg msk t (c, i) = Some (c', i')"
  shows "hits_step i i'"
  using assms
  by (auto simp: hits_step_def sa_iter_def Let_def split: if_splits option.splits prod.splits)

lemma sa_iter_defined:
  assumes "k \<le> 10" "ways i = 1 \<or> nat (sint (ways i)) \<le> 16"
  shows "\<exists>ci'. sa_iter sets lg (mask k) t (c, i) = Some ci'"
proof -
  let ?a = "ucast (addr t) :: u64"
  have b1: "unat (set_index (mask k) ?a) < 1024" "unat (set_index (mask k) (?a + 32)) < 1024"
    using assms(1) by (simp_all add: set_index_less)
  show ?thesis
  proof (cases "ways i = 1")
    case True
    with b1 show ?thesis by (simp add: sa_iter_def Let_def)
  next
    case False
    with assms(2) have n: "nat (sint (ways i)) \<le> 16" by simp
    obtain s1 h where d1: "sim_set_associative_do (c (unat (set_index (mask k) ?a))) (tag_bits lg ?a)
         (nat (sint (ways i))) (options i = OPTION_WRITE_ON_MISS \<and> op t = STORE) = Some (s1, h)"
      using do_defined [OF n] by blast
    let ?c1 = "c(unat (set_index (mask k) ?a) := s1)"
    obtain s2 h2 where d2: "sim_set_associative_do (?c1 (unat (set_index (mask k) (?a + 32))))
         (tag_bits (ucast (mylog2 (ucast sets))) (?a + 32)) (nat (sint (ways i))) False = Some (s2, h2)"
      using do_defined [OF n] by blast
    show ?thesis
      using False b1 d1 d2 by (simp add: sa_iter_def Let_def)
  qed
qed

lemma sa_loop_hits:
  assumes "sa_loop sets lg msk ts (c, i) = Some (c', i')" "unat (hits i) + length ts < 2 ^ 32"
  shows "hits_run (length ts) i i'"
  using assms
proof (induction ts arbitrary: c i)
  case Nil
  then show ?case by (simp add: hits_run_0)
next
  case (Cons t ts)
  from Cons.prems(1) obtain c1 i1 where
    it: "sa_iter sets lg msk t (c, i) = Some (c1, i1)" and
    lp: "sa_loop sets lg msk ts (c1, i1) = Some (c', i')"
    by (auto split: option.splits)
  have st: "hits_step i i1" using it by (rule sa_iter_hits)
  from Cons.prems(2) have "unat (hits i) + 1 < 2 ^ 32" by simp
  then have "unat (hits i + 1) = unat (hits i) + 1"
    by (simp add: unat_word_ariths)
  with st have "unat (hits i1) \<le> unat (hits i) + 1" by (auto simp: hits_step_def)
  with Cons.prems(2) have "unat (hits i1) + length ts < 2 ^ 32" by simp
  from Cons.IH [OF lp this] have "hits_run (length ts) i1 i'" .
  with st show ?case using Cons.prems(2) by (simp add: hits_run_Suc)
qed

lemma sa_loop_defined:
  assumes "k \<le> 10" "ways i = 1 \<or> nat (sint (ways i)) \<le> 16"
  shows "\<exists>ci'. sa_loop sets lg (mask k) ts (c, i) = Some ci'"
  using assms(2)
proof (induction ts arbitrary: c i)
  case Nil
  show ?case by simp
next
  case (Cons t ts)
  from sa_iter_defined [OF assms(1) Cons.prems] obtain c1 i1 where
    it: "sa_iter sets lg (mask k) t (c, i) = Some (c1, i1)" by fastforce
  from sa_iter_hits [OF it] have "ways i1 = ways i" by (simp add: hits_step_fields)
  with Cons.prems have "ways i1 = 1 \<or> nat (sint (ways i1)) \<le> 16" by simp
  from Cons.IH [OF this] it show ?case by simp
qed

lemma fold_hits:
  fixes f :: "'t \<Rightarrow> 'c \<times> ThreadInfo \<Rightarrow> 'c \<times> ThreadInfo"
  assumes step: "\<And>t c i. hits_step i (snd (f t (c, i)))"
    and "unat (hits i) + length ts < 2 ^ 32"
  shows "hits_run (length ts) i (snd (fold f ts (c, i)))"
  using assms(2)
proof (induction ts arbitrary: c i)
  case Nil
  show ?case by (simp add: hits_run_0)
next
  case (Cons t ts)
  obtain c1 i1 where f: "f t (c, i) = (c1, i1)" by (cases "f t (c, i)")
  with step [of i t c] have st: "hits_step i i1" by simp
  from Cons.prems have "unat (hits i) + 1 < 2 ^ 32" by simp
  then have "unat (hits i + 1) = unat (hits i) + 1"
    by (simp add: unat_word_ariths)
  with st have "unat (hits i1) \<le> unat (hits i) + 1" by (auto simp: hits_step_def)
  with Cons.prems have "unat (hits i1) + length ts < 2 ^ 32" by simp
  from Cons.IH [OF this, of c1] have "hits_run (length ts) i1 (snd (fold f ts (c1, i1)))" .
  with st show ?case using Cons.prems f by (simp add: hits_run_Suc)
qed

lemma fa_iter_hits: "hits_step i (snd (fa_iter t (c, i)))"
  by (auto simp: hits_step_def fa_iter_def Let_def split: prod.splits)

lemma plru_iter_hits: "hits_step i (snd (plru_iter t (c, i)))"
  by (auto simp: hits_step_def plru_iter_def Let_def split: prod.splits option.splits)

section \<open>The configuration constants\<close>

lemma nat_sint_small:
  fixes w :: u32
  assumes "unat w \<le> 16"
  shows "nat (sint w) = unat w"
proof -
  from assms have "w \<le> 16" by (simp add: word_le_nat_alt)
  then have "uint w \<le> 16" by (simp add: word_le_def)
  then have lt: "uint w < 2 ^ 31" by simp
  have "0 \<le> uint w" by simp
  then have ge: "- (2 ^ 31) \<le> uint w" by (rule order_trans [rotated]) simp
  from ge lt have "signed_take_bit 31 (uint w) = uint w"
    by (rule signed_take_bit_int_eq_self)
  then have "sint w = uint w" by (simp add: sint_uint)
  then show ?thesis unfolding unat_eq_nat_uint by simp
qed

lemma unat_ucast_up: "unat (ucast (x :: u32) :: u64) = unat x"
proof -
  have "unat x < 2 ^ 32" using unsigned_less [of x] by simp
  then have "unat x < 2 ^ 64" by simp
  then show ?thesis by (simp add: unsigned_ucast_eq take_bit_nat_eq_self)
qed

lemma ucast_up_down: "(ucast (ucast (x :: u32) :: u64) :: u32) = x"
  by (rule bit_word_eqI) (auto simp: bit_simps)

lemma unat_kb_sets:
  fixes k :: u32
  assumes "unat k < 4194304"
  shows "unat (k * 1024 div 32) = unat k * 32"
proof -
  from assms have "unat k * unat (1024 :: u32) < 2 ^ LENGTH(32)" by simp
  then have "unat (k * 1024) = unat k * unat (1024 :: u32)"
    by (simp only: unat_mult_lem)
  then show ?thesis by (simp add: unat_div)
qed

lemma unat_sets32:
  assumes "1 \<le> unat (ways i)" "unat (ways i) \<le> 16"
  shows "unat ((16 * 1024 :: u32) div (32 * ways i)) = 512 div unat (ways i)"
proof -
  from assms have "unat (32 :: u32) * unat (ways i) < 2 ^ LENGTH(32)" by simp
  then have m: "unat (32 * ways i) = unat (32 :: u32) * unat (ways i)"
    by (simp only: unat_mult_lem)
  have "unat ((16 * 1024 :: u32) div (32 * ways i)) = 16384 div (32 * unat (ways i))"
    by (simp add: unat_div m)
  also have "\<dots> = 512 div unat (ways i)"
    by (simp flip: div_mult2_eq)
  finally show ?thesis .
qed

lemma unat_sa_sets:
  assumes "1 \<le> unat (ways i)" "unat (ways i) \<le> 16"
  shows "unat (sa_sets i) = 512 div unat (ways i)"
  unfolding sa_sets_def unat_ucast_up using assms by (rule unat_sets32)

lemma unat_sa_sets32:
  assumes "1 \<le> unat (ways i)" "unat (ways i) \<le> 16"
  shows "unat (ucast (sa_sets i) :: u32) = 512 div unat (ways i)"
  unfolding sa_sets_def ucast_up_down using assms by (rule unat_sets32)

lemma ways_nonzero:
  assumes "1 \<le> unat (ways i)" "unat (ways i) \<le> 16"
  shows "32 * ways i \<noteq> 0"
proof -
  from assms have "unat (32 :: u32) * unat (ways i) < 2 ^ LENGTH(32)" by simp
  then have "unat (32 * ways i) = unat (32 :: u32) * unat (ways i)"
    by (simp only: unat_mult_lem)
  with assms(1) have "unat (32 * ways i) \<noteq> 0" by simp
  then show ?thesis by (simp only: unsigned_eq_0_iff not_False_eq_True)
qed

lemma sa_mask_direct:
  assumes "ways i = 1" "unat (kb i) < 4194304"
  shows "sa_mask i = mask (floor_log2 (unat (kb i) * 32))"
  using assms by (simp add: sa_mask_def bitmask_eq unat_kb_sets)

lemma sa_mask_assoc:
  assumes "2 \<le> unat (ways i)" "unat (ways i) \<le> 16"
  shows "sa_mask i = mask (floor_log2 (512 div unat (ways i)))"
proof -
  from assms(1) have "ways i \<noteq> 1" by auto
  then show ?thesis using assms by (simp add: sa_mask_def bitmask_eq unat_sa_sets32)
qed

lemma sa_log_assoc:
  assumes "1 \<le> unat (ways i)" "unat (ways i) \<le> 16"
  shows "unat (sa_log i) = floor_log2 (512 div unat (ways i))"
proof -
  have "floor_log2 (unat (ucast (sa_sets i) :: u32)) < 2 ^ 64"
    using floor_log2_u32 [of "ucast (sa_sets i)"] by simp
  then have "unat (sa_log i) = unat (mylog2 (ucast (sa_sets i)))"
    unfolding sa_log_def by (simp add: unsigned_ucast_eq unat_mylog2 take_bit_nat_eq_self)
  then show ?thesis using assms by (simp add: unat_mylog2 unat_sa_sets32)
qed

lemma hits_run_counters:
  assumes run: "hits_run n (i\<lparr>accesses := of_nat n\<rparr>) i'" and n: "n \<le> 15000000" and fresh: "hits i = 0"
  shows "unat (accesses i') = n \<and> hits i' \<le> accesses i'"
proof -
  from run have "i' = i\<lparr>accesses := of_nat n\<rparr>\<lparr>hits := hits i'\<rparr>" by (simp add: hits_run_def)
  then have "accesses i' = accesses (i\<lparr>accesses := of_nat n\<rparr>\<lparr>hits := hits i'\<rparr>)" by simp
  then have acc: "accesses i' = of_nat n" by simp
  from n have "n < 2 ^ 32" by simp
  then have u: "unat (of_nat n :: u32) = n" by (simp add: unat_of_nat)
  from run fresh have "unat (hits i') \<le> n" by (simp add: hits_run_def)
  with acc u show ?thesis by (simp add: word_le_nat_alt)
qed

lemma sa_config_defined:
  assumes "ways i = 1 \<and> unat (kb i) < 64 \<or> 2 \<le> unat (ways i) \<and> unat (ways i) \<le> 16"
  shows "\<exists>k\<le>10. sa_mask i = mask k" "ways i = 1 \<or> nat (sint (ways i)) \<le> 16" "32 * ways i \<noteq> 0"
proof -
  from assms have w: "1 \<le> unat (ways i)" "unat (ways i) \<le> 16" by auto
  then show "32 * ways i \<noteq> 0" by (rule ways_nonzero)
  from w show "ways i = 1 \<or> nat (sint (ways i)) \<le> 16" by (simp add: nat_sint_small)
  show "\<exists>k\<le>10. sa_mask i = mask k"
  proof (cases "ways i = 1")
    case True
    with assms have kb: "unat (kb i) < 64" by auto
    then have "unat (kb i) * 32 < 2 ^ 11" by simp
    then have "floor_log2 (unat (kb i) * 32) < 11" by (rule floor_log2_less) simp
    moreover have "sa_mask i = mask (floor_log2 (unat (kb i) * 32))"
      using True kb by (intro sa_mask_direct) simp_all
    ultimately show ?thesis by (intro exI [of _ "floor_log2 (unat (kb i) * 32)"]) simp
  next
    case False
    with assms have w2: "2 \<le> unat (ways i)" "unat (ways i) \<le> 16" by auto
    have "512 div unat (ways i) \<le> 512 div 2" using w2(1) by (intro div_le_mono2) simp_all
    then have "512 div unat (ways i) < 2 ^ 9" by simp
    then have "floor_log2 (512 div unat (ways i)) < 9" by (rule floor_log2_less) simp
    moreover have "sa_mask i = mask (floor_log2 (512 div unat (ways i)))"
      using w2 by (rule sa_mask_assoc)
    ultimately show ?thesis by (intro exI [of _ "floor_log2 (512 div unat (ways i))"]) simp
  qed
qed

lemma sim_set_associative_defined:
  assumes "ways i = 1 \<and> unat (kb i) < 64 \<or> 2 \<le> unat (ways i) \<and> unat (ways i) \<le> 16"
  shows "\<exists>i'. sim_set_associative i g_traces = Some i'"
proof -
  from sa_config_defined(1) [OF assms] obtain k where k: "k \<le> 10" "sa_mask i = mask k" by blast
  let ?i0 = "i\<lparr>accesses := of_nat (length g_traces)\<rparr>"
  from sa_config_defined(2) [OF assms] have "ways ?i0 = 1 \<or> nat (sint (ways ?i0)) \<le> 16" by simp
  from sa_loop_defined [OF k(1) this] obtain ci' where
    "sa_loop (sa_sets i) (sa_log i) (mask k) g_traces (empty_cache, ?i0) = Some ci'" by blast
  with k(2) sa_config_defined(3) [OF assms] show ?thesis
    by (simp add: sim_set_associative_def Let_def)
qed

section \<open>Accesses to a fresh cache\<close>

lemma fa_search_fold:
  "fold (fa_search_slot tag) [0..<n] (c, False) =
     ((\<lambda>b. if b < n
            then (c b)\<lparr>block_lru :=
                   (if block_tag (c b) = tag \<and> (\<forall>b'<b. block_tag (c b') \<noteq> tag) then 0
                    else block_lru (c b) + 1)\<rparr>
            else c b),
      \<exists>b<n. block_tag (c b) = tag)"
proof (induction n)
  case 0
  show ?case by simp
next
  case (Suc n)
  have ex: "(\<exists>b<Suc n. block_tag (c b) = tag) \<longleftrightarrow> (\<exists>b<n. block_tag (c b) = tag) \<or> block_tag (c n) = tag"
    by (auto simp: less_Suc_eq)
  show ?case
    unfolding upt_Suc_append [OF le0] fold_append comp_def Suc ex
    by (auto simp: fa_search_slot_def Let_def fun_eq_iff)
qed

lemma word_pred_neq: "(x :: u32) - (x + 1) \<noteq> 0"
  by simp

lemma plru_scan_first: "lc 511 = tag \<Longrightarrow> plru_scan lc tag 511 = Some 511"
  by (subst plru_scan.simps) simp

lemma tag0_set_index:
  fixes a :: u64
  assumes "drop_bit 10 a = 0"
  shows "unat (set_index msk a) < 1024"
proof -
  from assms have "unat (drop_bit 10 a) = 0" by simp
  then have "unat a div 1024 = 0" by (simp add: drop_bit_eq_div unat_div)
  then have "unat a < 1024" by simp
  then have "unat (drop_bit 5 a) < 32" by (simp add: drop_bit_eq_div unat_div)
  moreover have "drop_bit 5 a AND msk \<le> drop_bit 5 a" by (rule word_and_le2)
  then have "unat (drop_bit 5 a AND msk) \<le> unat (drop_bit 5 a)" by (simp add: word_le_nat_alt)
  ultimately show ?thesis by (simp add: set_index_def block_id_offset_def)
qed

lemma sa_iter_direct_tag0:
  assumes "ways i = 1" "drop_bit 10 (ucast (addr t) :: u64) = 0"
  shows "sa_iter sets lg msk t (empty_cache, i) = Some (empty_cache, i\<lparr>hits := hits i + 1\<rparr>)"
  using assms tag0_set_index [OF assms(2), of msk]
  by (simp add: sa_iter_def Let_def empty_cache_def empty_set_def)

lemma sa_iter_assoc_tag0:
  assumes k: "k \<le> 10" and w: "2 \<le> unat (ways i)" "unat (ways i) \<le> 16"
    and tag: "tag_bits lg (ucast (addr t)) = 0"
  shows "\<exists>c'. sa_iter sets lg (mask k) t (empty_cache, i) = Some (c', i\<lparr>hits := hits i + 1\<rparr>)"
proof -
  let ?a = "ucast (addr t) :: u64"
  let ?n = "nat (sint (ways i))"
  from w have n: "?n = unat (ways i)" by (simp add: nat_sint_small)
  with w have n16: "?n \<le> 16" and n2: "2 \<le> ?n" by simp_all
  from w(1) have w1: "ways i \<noteq> 1" by auto
  have b1: "unat (set_index (mask k) ?a) < 1024" "unat (set_index (mask k) (?a + 32)) < 1024"
    using k by (simp_all add: set_index_less)
  have "\<exists>w<?n. tags empty_set w = 0" using n2 by (intro exI [of _ 0]) (simp add: empty_set_def)
  with do_defined [OF n16, of empty_set 0] obtain s1 where
    d1: "sim_set_associative_do empty_set 0 ?n (options i = OPTION_WRITE_ON_MISS \<and> op t = STORE)
           = Some (s1, True)"
    by auto
  let ?c1 = "empty_cache(unat (set_index (mask k) ?a) := s1)"
  obtain s2 h2 where d2: "sim_set_associative_do (?c1 (unat (set_index (mask k) (?a + 32))))
         (tag_bits (ucast (mylog2 (ucast sets))) (?a + 32)) ?n False = Some (s2, h2)"
    using do_defined [OF n16] by blast
  have e: "empty_cache (unat (set_index (mask k) ?a)) = empty_set" by (simp add: empty_cache_def)
  show ?thesis
    using w1 b1 d1 d2 tag e by (simp add: sa_iter_def Let_def)
qed

section \<open>Address decomposition\<close>

lemma floor_log2_power: "floor_log2 (2 ^ k) = k"
proof -
  have "(2 :: nat) ^ floor_log2 (2 ^ k) \<le> 2 ^ k \<and> (2 :: nat) ^ k < 2 ^ (floor_log2 (2 ^ k) + 1)"
    by (rule floor_log2_bounds) simp
  then have "(2 :: nat) ^ floor_log2 (2 ^ k) \<le> 2 ^ k"
    "(2 :: nat) ^ k < 2 ^ Suc (floor_log2 (2 ^ k))" by simp_all
  then have "floor_log2 (2 ^ k) \<le> k" "k < Suc (floor_log2 (2 ^ k))"
    by (simp_all only: power_increasing_iff power_strict_increasing_iff semiring_norm)
  then show ?thesis by simp
qed

lemma spec_decompose_pow2:
  assumes "spec_numSets totalSizeKB nways = 2 ^ k"
  shows "spec_decompose totalSizeKB nways a = (drop_bit 5 a AND mask k, drop_bit (5 + k) a)"
  using assms by (simp add: spec_decompose_def floor_log2_power mask_eq_exp_minus_1)

lemma sa_decompose_assoc:
  assumes "2 \<le> unat (ways i)" "unat (ways i) \<le> 16"
  shows "sa_decompose i a =
           (drop_bit 5 a AND mask (floor_log2 (spec_numSets 16 (unat (ways i)))),
            drop_bit (5 + floor_log2 (spec_numSets 16 (unat (ways i)))) a)"
proof -
  from assms(1) have w1: "ways i \<noteq> 1" by auto
  have n: "spec_numSets 16 (unat (ways i)) = 512 div unat (ways i)"
    unfolding spec_numSets_def by (simp flip: div_mult2_eq)
  from assms have lg: "unat (sa_log i) = floor_log2 (512 div unat (ways i))"
    by (intro sa_log_assoc) simp_all
  have "floor_log2 (512 div unat (ways i)) \<le> floor_log2 512"
    by (rule floor_log2_mono) simp
  also have "floor_log2 512 = 9" using floor_log2_power [of 9] by simp
  finally have "unat (5 :: u64) + unat (sa_log i) < 2 ^ LENGTH(64)" unfolding lg by simp
  then have "unat (5 + sa_log i) = unat (5 :: u64) + unat (sa_log i)"
    by (simp only: unat_add_lem)
  then have "unat (block_id_offset + sa_log i) = 5 + floor_log2 (512 div unat (ways i))"
    unfolding lg block_id_offset_def by simp
  then show ?thesis
    using w1 assms
    by (simp add: sa_decompose_def tag_bits_def set_index_def sa_mask_assoc n block_id_offset_def)
qed

lemma sa_decompose_direct:
  assumes "ways i = 1" "unat (kb i) < 4194304"
  shows "sa_decompose i a =
           (drop_bit 5 a AND mask (floor_log2 (spec_numSets (unat (kb i)) 1)), drop_bit 10 a)"
  using assms
  by (simp add: sa_decompose_def set_index_def sa_mask_direct spec_numSets_def block_id_offset_def
      mult.commute)

section \<open>Iterations of the set-associative path\<close>

lemma sa_log_prefetch: "(ucast (mylog2 (ucast (sa_sets i))) :: u64) = sa_log i"
  by (simp add: sa_log_def)

lemma sa_iter_assoc_access:
  assumes "ways i \<noteq> 1"
  shows "sa_iter (sa_sets i) (sa_log i) (sa_mask i) t (c, i) =
     (case sa_access i c (ucast (addr t)) (options i = OPTION_WRITE_ON_MISS \<and> op t = STORE) of
        None \<Rightarrow> None
      | Some (c1, hit) \<Rightarrow>
          if options i = OPTION_PREFETCH_ALWAYS \<or> (options i = OPTION_PREFETCH_ON_MISS \<and> \<not> hit)
          then (case sa_access i c1 (ucast (addr t) + 32) False of
                  None \<Rightarrow> None
                | Some (c2, hit2) \<Rightarrow> Some (c2, i\<lparr>hits := hits i + of_bool hit\<rparr>))
          else Some (c1, i\<lparr>hits := hits i + of_bool hit\<rparr>))"
  using assms
  by (simp add: sa_iter_def sa_access_def sa_decompose_def sa_log_prefetch Let_def
      split: option.splits prod.splits)

lemma sa_iter_direct_decompose:
  assumes "ways i = 1"
  shows "sa_iter (sa_sets i) (sa_log i) (sa_mask i) t (c, i) =
     (case sa_decompose i (ucast (addr t)) of
        (st, tag) \<Rightarrow>
          if 1024 \<le> unat st then None
          else if tags (c (unat st)) 0 = tag then Some (c, i\<lparr>hits := hits i + 1\<rparr>)
          else Some (c(unat st := (c (unat st))\<lparr>tags := (tags (c (unat st)))(0 := tag)\<rparr>), i))"
  using assms by (simp add: sa_iter_def sa_decompose_def Let_def)

lemma sa_decompose_in_bounds:
  assumes "2 \<le> unat (ways i)" "unat (ways i) \<le> 16"
  shows "unat (fst (sa_decompose i a)) < 1024"
proof -
  from assms have "ways i = 1 \<and> unat (kb i) < 64 \<or> 2 \<le> unat (ways i) \<and> unat (ways i) \<le> 16"
    by simp
  from sa_config_defined(1) [OF this] obtain k where "k \<le> 10" "sa_mask i = mask k" by blast
  then show ?thesis by (simp add: sa_decompose_def set_index_less)
qed

lemma do_miss_insert_defined:
  assumes "n \<le> 16" "\<forall>w<n. tags s w \<noteq> tag"
  shows "\<exists>s'. sim_set_associative_do s tag n False = Some (s', False)"
  using do_defined [OF assms(1), of s tag False] assms(2) by auto

lemma store_miss_iter:
  assumes o: "options i = OPTION_WRITE_ON_MISS" "op t = STORE"
    and w: "2 \<le> unat (ways i)" "unat (ways i) \<le> 16"
    and d: "sa_decompose i (ucast (addr t)) = (st, tag)"
    and miss: "\<forall>w<unat (ways i). tags (c (unat st)) w \<noteq> tag"
  shows "sa_iter (sa_sets i) (sa_log i) (sa_mask i) t (c, i) =
           Some (c(unat st := aged (c (unat st)) (unat (ways i))), i)"
proof -
  from w(1) have w1: "ways i \<noteq> 1" by auto
  from w have n: "nat (sint (ways i)) = unat (ways i)" by (simp add: nat_sint_small)
  from sa_decompose_in_bounds [OF w, of "ucast (addr t)"] d have b: "unat st < 1024" by simp
  have "sim_set_associative_do (c (unat st)) tag (unat (ways i)) True
          = Some (aged (c (unat st)) (unat (ways i)), False)"
    using w(2) miss by (rule do_miss_no_modify)
  then have "sa_access i c (ucast (addr t)) True
          = Some (c(unat st := aged (c (unat st)) (unat (ways i))), False)"
    using b d n by (simp add: sa_access_def)
  then show ?thesis using o by (simp add: sa_iter_assoc_access [OF w1])
qed

lemma load_miss_iter:
  assumes o: "options i = OPTION_WRITE_ON_MISS"
    and w: "2 \<le> unat (ways i)" "unat (ways i) \<le> 16"
    and d: "sa_decompose i (ucast (addr t)) = (st, tag)"
    and miss: "\<forall>w<unat (ways i). tags (c (unat st)) w \<noteq> tag"
    and l: "op t = LOAD"
  shows "\<exists>c'. sa_iter (sa_sets i) (sa_log i) (sa_mask i) t (c, i) = Some (c', i)"
proof -
  from w(1) have w1: "ways i \<noteq> 1" by auto
  from w have n: "nat (sint (ways i)) = unat (ways i)" by (simp add: nat_sint_small)
  from sa_decompose_in_bounds [OF w, of "ucast (addr t)"] d have b: "unat st < 1024" by simp
  from do_miss_insert_defined [OF w(2) miss] obtain s' where
    "sim_set_associative_do (c (unat st)) tag (unat (ways i)) False = Some (s', False)" by blast
  then have "sa_access i c (ucast (addr t)) False = Some (c(unat st := s'), False)"
    using b d n by (simp add: sa_access_def)
  then show ?thesis using o l by (simp add: sa_iter_assoc_access [OF w1])
qed

lemma store_hit_run:
  assumes w: "2 \<le> unat (ways i)" "unat (ways i) \<le> 16"
    and tag: "snd (sa_decompose i (ucast (addr t))) = 0"
  shows "map_option hits (sim_set_associative i [t]) = Some (hits i + 1)"
proof -
  from w have c: "ways i = 1 \<and> unat (kb i) < 64 \<or> 2 \<le> unat (ways i) \<and> unat (ways i) \<le> 16"
    by simp
  from w(1) have w1: "ways i \<noteq> 1" by auto
  from sa_config_defined(1) [OF c] obtain k where k: "k \<le> 10" "sa_mask i = mask k" by blast
  let ?i0 = "i\<lparr>accesses := of_nat (length [t])\<rparr>"
  from w have w0: "2 \<le> unat (ways ?i0)" "unat (ways ?i0) \<le> 16" by simp_all
  from tag w1 have "tag_bits (sa_log i) (ucast (addr t)) = 0" by (simp add: sa_decompose_def)
  from sa_iter_assoc_tag0 [OF k(1) w0 this, of "sa_sets i"] obtain c' where
    "sa_iter (sa_sets i) (sa_log i) (mask k) t (empty_cache, ?i0) = Some (c', ?i0\<lparr>hits := hits ?i0 + 1\<rparr>)"
    by blast
  with k(2) sa_config_defined(3) [OF c] show ?thesis
    by (simp add: sim_set_associative_def)
qed

lemma sa_consts_accesses [simp]:
  "sa_sets (i\<lparr>accesses := x\<rparr>) = sa_sets i" "sa_log (i\<lparr>accesses := x\<rparr>) = sa_log i"
  "sa_mask (i\<lparr>accesses := x\<rparr>) = sa_mask i"
  "sa_decompose (i\<lparr>accesses := x\<rparr>) = sa_decompose i"
  by (simp_all add: sa_sets_def sa_log_def sa_mask_def sa_decompose_def fun_eq_iff)

section \<open>Direct-mapped caches of two sizes\<close>

lemma and_mask_mono_eq:
  fixes x y :: u64
  assumes "k1 \<le> k2" "x AND mask k2 = y AND mask k2"
  shows "x AND mask k1 = y AND mask k1"
proof (rule bit_word_eqI)
  fix n assume n: "n < LENGTH(64)"
  from assms(2) have "bit (x AND mask k2) n = bit (y AND mask k2) n" by simp
  then have "n < k2 \<Longrightarrow> bit x n = bit y n" using n by (simp add: bit_and_iff bit_mask_iff)
  with assms(1) show "bit (x AND mask k1) n = bit (y AND mask k1) n"
    by (auto simp: bit_and_iff bit_mask_iff)
qed

lemma same_line:
  fixes a b :: u64
  assumes "5 \<le> k" "drop_bit 5 a AND mask k = drop_bit 5 b AND mask k" "drop_bit 10 a = drop_bit 10 b"
  shows "drop_bit 5 a = drop_bit 5 b"
proof (rule bit_word_eqI)
  fix n assume n: "n < LENGTH(64)"
  show "bit (drop_bit 5 a) n = bit (drop_bit 5 b) n"
  proof (cases "n < 5")
    case True
    from assms(2) have "bit (drop_bit 5 a AND mask k) n = bit (drop_bit 5 b AND mask k) n" by simp
    with True assms(1) n show ?thesis by (simp add: bit_and_iff bit_mask_iff)
  next
    case False
    from assms(3) have "bit (drop_bit 10 a) (n - 5) = bit (drop_bit 10 b) (n - 5)" by simp
    with False show ?thesis by (simp add: bit_drop_bit_eq)
  qed
qed

lemma set_index_mono_eq:
  assumes "k1 \<le> k2" "set_index (mask k2) a = set_index (mask k2) b"
  shows "set_index (mask k1) a = set_index (mask k1) b"
  using assms unfolding set_index_def by (rule and_mask_mono_eq)

lemma set_index_same_line:
  assumes "5 \<le> k" "set_index (mask k) a = set_index (mask k) b" "drop_bit 10 a = drop_bit 10 b"
    and "k \<le> k2"
  shows "set_index (mask k2) a = set_index (mask k2) b"
proof -
  have e: "unat block_id_offset = 5" by (simp add: block_id_offset_def)
  from assms(2) have "drop_bit 5 a AND mask k = drop_bit 5 b AND mask k"
    by (simp add: set_index_def e)
  with assms(1) have "drop_bit 5 a = drop_bit 5 b"
    using assms(3) by (rule same_line)
  then show ?thesis by (simp add: set_index_def e)
qed

lemma dm_update_tags:
  "tags (dm_update c st tag st') 0 = (if st' = st then tag else tags (c st') 0)"
  by (simp add: dm_update_def)

lemma dm_rel_step:
  assumes r: "dm_rel k1 k2 c1 c2" and k: "5 \<le> k1" "k1 \<le> k2"
  shows "dm_rel k1 k2 (dm_update c1 (unat (set_index (mask k1) b)) (drop_bit 10 b))
                      (dm_update c2 (unat (set_index (mask k2) b)) (drop_bit 10 b))"
  unfolding dm_rel_def
proof (intro allI impI)
  fix a :: u64
  define p1 where "p1 = unat (set_index (mask k1) a)"
  define q1 where "q1 = unat (set_index (mask k1) b)"
  define p2 where "p2 = unat (set_index (mask k2) a)"
  define q2 where "q2 = unat (set_index (mask k2) b)"
  define ta where "ta = drop_bit 10 a"
  define tb where "tb = drop_bit 10 b"
  have mono: "p2 = q2 \<Longrightarrow> p1 = q1"
  proof -
    assume "p2 = q2"
    then have "set_index (mask k2) a = set_index (mask k2) b"
      unfolding p2_def q2_def by (rule word_unat_eq_iff [THEN iffD2])
    with k(2) have "set_index (mask k1) a = set_index (mask k1) b" by (rule set_index_mono_eq)
    then show "p1 = q1" unfolding p1_def q1_def by (rule arg_cong)
  qed
  have line: "p1 = q1 \<Longrightarrow> ta = tb \<Longrightarrow> p2 = q2"
  proof -
    assume "p1 = q1" and t: "ta = tb"
    then have "set_index (mask k1) a = set_index (mask k1) b"
      unfolding p1_def q1_def by (intro word_unat_eq_iff [THEN iffD2])
    with k(1) have "set_index (mask k2) a = set_index (mask k2) b"
      using t [unfolded ta_def tb_def] k(2) by (rule set_index_same_line)
    then show "p2 = q2" unfolding p2_def q2_def by (rule arg_cong)
  qed
  have old: "tags (c1 p1) 0 = ta \<Longrightarrow> tags (c2 p2) 0 = ta"
    using r unfolding dm_rel_def p1_def p2_def ta_def by blast
  assume "tags (dm_update c1 (unat (set_index (mask k1) b)) (drop_bit 10 b)
                  (unat (set_index (mask k1) a))) 0 = drop_bit 10 a"
  then have h: "(if p1 = q1 then tb else tags (c1 p1) 0) = ta"
    unfolding dm_update_tags p1_def q1_def ta_def tb_def .
  have "(if p2 = q2 then tb else tags (c2 p2) 0) = ta"
  proof (cases "p2 = q2")
    case True
    then have "p1 = q1" by (rule mono)
    with h have "tb = ta" by simp
    with True show ?thesis by simp
  next
    case False
    show ?thesis
    proof (cases "p1 = q1")
      case True
      with h have "ta = tb" by simp
      with True have "p2 = q2" by (rule line)
      with False show ?thesis by simp
    next
      case p: False
      with h have "tags (c1 p1) 0 = ta" by simp
      then have "tags (c2 p2) 0 = ta" by (rule old)
      with False show ?thesis by simp
    qed
  qed
  then show "tags (dm_update c2 (unat (set_index (mask k2) b)) (drop_bit 10 b)
                     (unat (set_index (mask k2) a))) 0 = drop_bit 10 a"
    unfolding dm_update_tags p2_def q2_def ta_def tb_def .
qed

lemma dm_rel_empty: "dm_rel k1 k2 empty_cache empty_cache"
  by (simp add: dm_rel_def empty_cache_def empty_set_def)

lemma sa_iter_direct:
  assumes "ways i = 1" "unat (set_index msk (ucast (addr t))) < 1024"
  shows "sa_iter sets lg msk t (c, i) =
           Some (dm_update c (unat (set_index msk (ucast (addr t)))) (drop_bit 10 (ucast (addr t))),
                 i\<lparr>hits := hits i +
                      of_bool (tags (c (unat (set_index msk (ucast (addr t))))) 0
                                 = drop_bit 10 (ucast (addr t)))\<rparr>)"
proof (cases "tags (c (unat (set_index msk (ucast (addr t))))) 0 = drop_bit 10 (ucast (addr t) :: u64)")
  case True
  let ?st = "unat (set_index msk (ucast (addr t)))"
  have "(tags (c ?st))(0 := tags (c ?st) 0) = tags (c ?st)" by (rule fun_upd_triv)
  then have "dm_update c ?st (tags (c ?st) 0) = c" by (simp add: dm_update_def)
  with True assms show ?thesis by (simp add: sa_iter_def Let_def)
next
  case False
  with assms show ?thesis by (simp add: sa_iter_def Let_def dm_update_def)
qed

lemma unat_add_of_bool:
  fixes x :: u32
  assumes "unat x + 1 < 2 ^ 32"
  shows "unat (x + of_bool h) = unat x + of_bool h"
proof (cases h)
  case True
  from assms have "unat (x + 1) = unat x + 1" by (simp add: unat_word_ariths)
  with True show ?thesis by simp
next
  case False
  then show ?thesis by simp
qed

lemma dm_lockstep:
  assumes k: "5 \<le> k1" "k1 \<le> k2" "k2 \<le> 10"
    and w: "ways i1 = 1" "ways i2 = 1"
    and r: "dm_rel k1 k2 c1 c2"
    and h: "unat (hits i1) \<le> unat (hits i2)" "unat (hits i2) + length ts < 2 ^ 32"
  shows "\<exists>c1' i1' c2' i2'.
           sa_loop s1 l1 (mask k1) ts (c1, i1) = Some (c1', i1') \<and>
           sa_loop s2 l2 (mask k2) ts (c2, i2) = Some (c2', i2') \<and>
           unat (hits i1') \<le> unat (hits i2')"
  using w r h
proof (induction ts arbitrary: c1 c2 i1 i2)
  case Nil
  then show ?case by simp
next
  case (Cons t ts)
  let ?a = "ucast (addr t) :: u64"
  let ?p1 = "unat (set_index (mask k1) ?a)" and ?p2 = "unat (set_index (mask k2) ?a)"
  let ?h1 = "tags (c1 ?p1) 0 = drop_bit 10 ?a" and ?h2 = "tags (c2 ?p2) 0 = drop_bit 10 ?a"
  let ?c1 = "dm_update c1 ?p1 (drop_bit 10 ?a)" and ?c2 = "dm_update c2 ?p2 (drop_bit 10 ?a)"
  let ?i1 = "i1\<lparr>hits := hits i1 + of_bool ?h1\<rparr>" and ?i2 = "i2\<lparr>hits := hits i2 + of_bool ?h2\<rparr>"
  from k have k1: "k1 \<le> 10" by simp
  have b1: "?p1 < 1024" using k1 by (rule set_index_less)
  have b2: "?p2 < 1024" using k(3) by (rule set_index_less)
  have it1: "sa_iter s1 l1 (mask k1) t (c1, i1) = Some (?c1, ?i1)"
    using Cons.prems(1) b1 by (rule sa_iter_direct)
  have it2: "sa_iter s2 l2 (mask k2) t (c2, i2) = Some (?c2, ?i2)"
    using Cons.prems(2) b2 by (rule sa_iter_direct)
  from Cons.prems(3) have imp: "?h1 \<Longrightarrow> ?h2" by (simp add: dm_rel_def)
  from Cons.prems(4,5) have nw: "unat (hits i1) + 1 < 2 ^ 32" "unat (hits i2) + 1 < 2 ^ 32"
    by simp_all
  have u1: "unat (hits ?i1) = unat (hits i1) + of_bool ?h1"
    using nw(1) by (simp add: unat_add_of_bool)
  have u2: "unat (hits ?i2) = unat (hits i2) + of_bool ?h2"
    using nw(2) by (simp add: unat_add_of_bool)
  have le: "unat (hits ?i1) \<le> unat (hits ?i2)"
    unfolding u1 u2 using Cons.prems(4) imp by (cases ?h1; cases ?h2) simp_all
  have len: "unat (hits ?i2) + length ts < 2 ^ 32"
    unfolding u2 using Cons.prems(5) by (cases ?h2) simp_all
  have r': "dm_rel k1 k2 ?c1 ?c2"
    using Cons.prems(3) k(1,2) by (rule dm_rel_step)
  have "\<exists>c1' i1' c2' i2'.
           sa_loop s1 l1 (mask k1) ts (?c1, ?i1) = Some (c1', i1') \<and>
           sa_loop s2 l2 (mask k2) ts (?c2, ?i2) = Some (c2', i2') \<and>
           unat (hits i1') \<le> unat (hits i2')"
  proof (rule Cons.IH)
    show "ways ?i1 = 1" using Cons.prems(1) by simp
    show "ways ?i2 = 1" using Cons.prems(2) by simp
    show "dm_rel k1 k2 ?c1 ?c2" by (rule r')
    show "unat (hits ?i1) \<le> unat (hits ?i2)" by (rule le)
    show "unat (hits ?i2) + length ts < 2 ^ 32" by (rule len)
  qed
  then show ?case unfolding sa_loop.simps it1 it2 option.case .
qed

lemma sa_iter_kb:
  "sa_iter sets lg msk t (c, i\<lparr>kb := k\<rparr>) =
     map_option (\<lambda>(c', i'). (c', i'\<lparr>kb := k\<rparr>)) (sa_iter sets lg msk t (c, i))"
  by (simp add: sa_iter_def Let_def split: option.splits prod.splits)

lemma sa_loop_kb:
  "sa_loop sets lg msk ts (c, i\<lparr>kb := k\<rparr>) =
     map_option (\<lambda>(c', i'). (c', i'\<lparr>kb := k\<rparr>)) (sa_loop sets lg msk ts (c, i))"
proof (induction ts arbitrary: c i)
  case Nil
  show ?case by simp
next
  case (Cons t ts)
  show ?case
  proof (cases "sa_iter sets lg msk t (c, i)")
    case None
    then show ?thesis by (simp add: sa_iter_kb)
  next
    case (Some ci)
    obtain c1 i1 where "ci = (c1, i1)" by (cases ci)
    with Some Cons.IH [of c1 i1] show ?thesis by (simp add: sa_iter_kb)
  qed
qed

lemma sim_set_associative_kb:
  assumes "ways i \<noteq> 1"
  shows "sim_set_associative (i\<lparr>kb := k\<rparr>) g_traces =
           map_option (\<lambda>i'. i'\<lparr>kb := k\<rparr>) (sim_set_associative i g_traces)"
proof -
  have c: "sa_sets (i\<lparr>kb := k\<rparr>) = sa_sets i" "sa_log (i\<lparr>kb := k\<rparr>) = sa_log i"
    by (simp_all add: sa_sets_def sa_log_def)
  from assms have m: "sa_mask (i\<lparr>kb := k\<rparr>) = sa_mask i"
    by (simp add: sa_mask_def sa_sets_def)
  have e: "i\<lparr>kb := k, accesses := x\<rparr> = i\<lparr>accesses := x\<rparr>\<lparr>kb := k\<rparr>" for x by simp
  show ?thesis
    unfolding sim_set_associative_def Let_def c m e sa_loop_kb
    by (simp add: option.map_comp comp_def split_beta)
qed

lemma direct_mask_bits:
  fixes k :: u32
  assumes "1 \<le> unat k" "unat k < 64"
  shows "5 \<le> floor_log2 (unat k * 32)" "floor_log2 (unat k * 32) \<le> 10"
proof -
  from assms(1) have "2 ^ 5 \<le> unat k * 32" by simp
  then have "floor_log2 (2 ^ 5) \<le> floor_log2 (unat k * 32)" by (rule floor_log2_mono)
  then show "5 \<le> floor_log2 (unat k * 32)" by (simp only: floor_log2_power)
  from assms(2) have "unat k * 32 < 2 ^ 11" by simp
  then have "floor_log2 (unat k * 32) < 11" by (rule floor_log2_less) simp
  then show "floor_log2 (unat k * 32) \<le> 10" by simp
qed

section \<open>Search and insertion in the fully associative cache\<close>


lemma fa_aged_simps [simp]:
  "block_tag (fa_aged c b) = block_tag (c b)"
  "block_lru (fa_aged c b) = (if b < 512 then block_lru (c b) + 1 else block_lru (c b))"
  by (simp_all add: fa_aged_def)



section \<open>Paths in the pseudo-LRU tree\<close>

lemma path_up_0: "path_up 0 = []"
  by (subst path_up.simps) simp

lemma path_up_pos: "0 < n \<Longrightarrow> path_up n = n # path_up ((n - 1) div 2)"
  by (subst path_up.simps) simp

lemma path_up_range: "x \<in> set (path_up n) \<Longrightarrow> 0 < x \<and> x \<le> n"
proof (induction n rule: path_up.induct)
  case (1 n)
  show ?case
  proof (cases "n = 0")
    case True
    with 1(2) show ?thesis by (simp add: path_up_0)
  next
    case False
    with 1(2) have "x = n \<or> x \<in> set (path_up ((n - 1) div 2))"
      by (simp add: path_up_pos)
    then show ?thesis
    proof
      assume "x = n" with False show ?thesis by simp
    next
      assume "x \<in> set (path_up ((n - 1) div 2))"
      with 1(1) False have "0 < x \<and> x \<le> (n - 1) div 2" by simp
      then show ?thesis by auto
    qed
  qed
qed

lemma path_up_chain:
  "x \<in> set (path_up n) \<Longrightarrow> y \<in> set (path_up n) \<Longrightarrow> y < x \<Longrightarrow> y \<le> (x - 1) div 2"
proof (induction n rule: path_up.induct)
  case (1 n)
  from 1(2) have n0: "n \<noteq> 0" by (cases "n = 0") (simp_all add: path_up_0)
  then have p: "path_up n = n # path_up ((n - 1) div 2)" by (simp add: path_up_pos)
  show ?case
  proof (cases "x = n")
    case True
    with 1(3,4) p have "y \<in> set (path_up ((n - 1) div 2))" by auto
    then have "y \<le> (n - 1) div 2" using path_up_range by blast
    with True show ?thesis by simp
  next
    case False
    with 1(2) p have x: "x \<in> set (path_up ((n - 1) div 2))" by simp
    then have "x \<le> (n - 1) div 2" using path_up_range by blast
    with 1(4) n0 have "y \<noteq> n" by auto
    with 1(3) p have "y \<in> set (path_up ((n - 1) div 2))" by simp
    with 1(1) n0 x 1(4) show ?thesis by simp
  qed
qed

lemma plru_touch_eq:
  "0 < block \<Longrightarrow>
   plru_touch lc block =
     (\<lambda>m. if 2 * m + 1 \<in> set (path_up block) then 0
          else if 2 * m + 2 \<in> set (path_up block) then 1 else lc m)"
proof (induction lc block rule: plru_touch.induct)
  case (1 lc block)
  let ?p = "(block - 1) div 2"
  let ?lc' = "lc(?p := (if block mod 2 \<noteq> 0 then 0 else 1))"
  from 1(2) have p: "path_up block = block # path_up ?p" by (rule path_up_pos)
  have above: "2 * ?p + 1 \<notin> set (path_up ?p)" "2 * ?p + 2 \<notin> set (path_up ?p)"
    using path_up_range [of "2 * ?p + 1" ?p] path_up_range [of "2 * ?p + 2" ?p] by auto
  show ?case
  proof (cases "?p = 0")
    case True
    then have "path_up ?p = []" by (simp add: path_up_0)
    with p have pb: "set (path_up block) = {block}" by simp
    have t: "plru_touch lc block = ?lc'"
      using True by (subst plru_touch.simps) (simp add: Let_def)
    from True 1(2) have "block = 1 \<or> block = 2" by presburger
    then show ?thesis
    proof
      assume "block = 1"
      with t pb show ?thesis by (auto simp: fun_eq_iff)
    next
      assume "block = 2"
      with t pb show ?thesis by (auto simp: fun_eq_iff)
    qed
  next
    case False
    have "plru_touch lc block = plru_touch ?lc' ?p"
      using False by (subst plru_touch.simps) (simp add: Let_def)
    also have "\<dots> = (\<lambda>m. if 2 * m + 1 \<in> set (path_up ?p) then 0
          else if 2 * m + 2 \<in> set (path_up ?p) then 1 else ?lc' m)"
      using False by (intro 1(1) [OF refl refl]) simp_all
    also have "\<dots> = (\<lambda>m. if 2 * m + 1 \<in> set (path_up block) then 0
          else if 2 * m + 2 \<in> set (path_up block) then 1 else lc m)"
    proof (rule ext)
      fix m
      show "(if 2 * m + 1 \<in> set (path_up ?p) then 0
          else if 2 * m + 2 \<in> set (path_up ?p) then 1 else ?lc' m) =
        (if 2 * m + 1 \<in> set (path_up block) then 0
          else if 2 * m + 2 \<in> set (path_up block) then 1 else lc m)"
      proof (cases "m = ?p")
        case True
        from 1(2) have "block = 2 * ?p + 1 \<or> block = 2 * ?p + 2" by presburger
        then show ?thesis
        proof
          assume b: "block = 2 * ?p + 1"
          then have "block mod 2 \<noteq> 0" by presburger
          with above True b show ?thesis unfolding p by simp
        next
          assume b: "block = 2 * ?p + 2"
          then have "block mod 2 = 0" "2 * ?p + 1 \<noteq> block" by presburger+
          with above True b show ?thesis unfolding p by simp
        qed
      next
        case False
        with 1(2) have "2 * m + 1 \<noteq> block" "2 * m + 2 \<noteq> block" by presburger+
        with False show ?thesis unfolding p by simp
      qed
    qed
    finally show ?thesis .
  qed
qed

lemma plru_stale_range: "n < plru_stale lc n \<and> plru_stale lc n \<le> 2 * n + 2"
  by (simp add: plru_stale_def)

lemma path_down_leaf: "\<not> n < 511 \<Longrightarrow> path_down lc n = []"
  by (subst path_down.simps) simp

lemma path_down_node: "n < 511 \<Longrightarrow> path_down lc n = n # path_down lc (plru_stale lc n)"
  by (subst path_down.simps) simp

lemma descend_leaf: "\<not> n < 511 \<Longrightarrow> descend lc n = n"
  by (subst descend.simps) simp

lemma descend_node: "n < 511 \<Longrightarrow> descend lc n = descend lc (plru_stale lc n)"
  by (subst descend.simps) simp

lemma path_down_range: "x \<in> set (path_down lc n) \<Longrightarrow> n \<le> x \<and> x < 511"
proof (induction lc n rule: path_down.induct)
  case (1 lc n)
  show ?case
  proof (cases "n < 511")
    case True
    with 1(2) have "x = n \<or> x \<in> set (path_down lc (plru_stale lc n))"
      by (simp add: path_down_node)
    then show ?thesis
    proof
      assume "x = n" with True show ?thesis by simp
    next
      assume "x \<in> set (path_down lc (plru_stale lc n))"
      with 1(1) True have "plru_stale lc n \<le> x \<and> x < 511" by simp
      with plru_stale_range [of n lc] show ?thesis by simp
    qed
  next
    case False
    with 1(2) show ?thesis by (simp add: path_down_leaf)
  qed
qed

lemma descend_range: "n < 1023 \<Longrightarrow> 511 \<le> descend lc n \<and> descend lc n < 1023"
proof (induction lc n rule: descend.induct)
  case (1 lc n)
  show ?case
  proof (cases "n < 511")
    case True
    with plru_stale_range [of n lc] have "plru_stale lc n < 1023" by simp
    with 1(1) True show ?thesis by (simp add: descend_node)
  next
    case False
    with 1(2) show ?thesis by (simp add: descend_leaf)
  qed
qed

lemma descend_cong:
  "(\<And>m. n \<le> m \<Longrightarrow> lc1 m = lc2 m) \<Longrightarrow>
   descend lc1 n = descend lc2 n \<and> path_down lc1 n = path_down lc2 n"
proof (induction lc1 n rule: descend.induct)
  case (1 lc1 n)
  show ?case
  proof (cases "n < 511")
    case True
    from 1(2) [of n] have s: "plru_stale lc1 n = plru_stale lc2 n" by (simp add: plru_stale_def)
    have "descend lc1 (plru_stale lc1 n) = descend lc2 (plru_stale lc1 n) \<and>
          path_down lc1 (plru_stale lc1 n) = path_down lc2 (plru_stale lc1 n)"
    proof (rule 1(1) [OF True])
      fix m assume "plru_stale lc1 n \<le> m"
      with plru_stale_range [of n lc1] have "n \<le> m" by simp
      then show "lc1 m = lc2 m" by (rule 1(2))
    qed
    with True s show ?thesis by (simp add: descend_node path_down_node)
  next
    case False
    then show ?thesis by (simp add: descend_leaf path_down_leaf)
  qed
qed

lemma plru_walk_eq:
  "plru_walk lc n =
     ((\<lambda>m. if m \<in> set (path_down lc n) then (if lc m = 0 then 1 else 0) else lc m),
      descend lc n)"
proof (induction lc n rule: plru_walk.induct)
  case (1 lc n)
  show ?case
  proof (cases "n < 511")
    case False
    then show ?thesis
      by (subst plru_walk.simps) (simp add: descend_leaf path_down_leaf)
  next
    case True
    define lc' where "lc' = lc(n := (if lc n = 0 then 1 else 0))"
    define n' where "n' = plru_stale lc n"
    have n': "2 * n + (if lc' n = 0 then 1 else 2) = n'"
      by (simp add: plru_stale_def lc'_def n'_def)
    have gt: "n < n'" unfolding n'_def using plru_stale_range [of n lc] by simp
    have agree: "descend lc' n' = descend lc n' \<and> path_down lc' n' = path_down lc n'"
    proof (rule descend_cong)
      fix m assume "n' \<le> m"
      with gt have "m \<noteq> n" by simp
      then show "lc' m = lc m" by (simp add: lc'_def)
    qed
    have nin: "n \<notin> set (path_down lc n')"
      using path_down_range [of n lc n'] gt by auto
    have "plru_walk lc n = plru_walk lc' n'"
      using True by (subst plru_walk.simps) (simp add: Let_def n' [symmetric] lc'_def)
    also have "\<dots> = ((\<lambda>m. if m \<in> set (path_down lc' n') then (if lc' m = 0 then 1 else 0) else lc' m),
      descend lc' n')"
      unfolding n' [symmetric] lc'_def using True by (intro 1 [OF _ refl]) simp
    also have "\<dots> = ((\<lambda>m. if m \<in> set (path_down lc n') then (if lc' m = 0 then 1 else 0) else lc' m),
      descend lc n')"
      by (simp add: agree)
    also have "\<dots> = ((\<lambda>m. if m \<in> set (n # path_down lc n') then (if lc m = 0 then 1 else 0) else lc m),
      descend lc n')"
      using nin by (auto simp: fun_eq_iff lc'_def)
    also have "\<dots> = ((\<lambda>m. if m \<in> set (path_down lc n) then (if lc m = 0 then 1 else 0) else lc m),
      descend lc n)"
      unfolding path_down_node [OF True] descend_node [OF True] n'_def ..
    finally show ?thesis .
  qed
qed

lemma plru_scan_Some:
  "plru_scan lc tag b = Some block \<Longrightarrow>
   b \<le> block \<and> block < 1023 \<and> lc block = tag \<and> (\<forall>j. b \<le> j \<and> j < block \<longrightarrow> lc j \<noteq> tag)"
proof (induction lc tag b rule: plru_scan.induct)
  case (1 lc tag b)
  show ?case
  proof (cases "b < 1023")
    case False
    with 1(2) show ?thesis by (subst (asm) plru_scan.simps) simp
  next
    case True
    show ?thesis
    proof (cases "lc b = tag")
      case t: True
      with True 1(2) have "block = b" by (subst (asm) plru_scan.simps) simp
      with True t show ?thesis by auto
    next
      case f: False
      with True 1(2) have "plru_scan lc tag (b + 1) = Some block"
        by (subst (asm) plru_scan.simps) simp
      with 1(1) True f have "b + 1 \<le> block \<and> block < 1023 \<and> lc block = tag \<and>
        (\<forall>j. b + 1 \<le> j \<and> j < block \<longrightarrow> lc j \<noteq> tag)" by simp
      with f show ?thesis by (auto simp: Suc_le_eq elim: less_SucE le_neq_implies_less)
    qed
  qed
qed

lemma touch_points_away:
  assumes "0 < block" "n \<in> set (path_up block)"
  shows "plru_stale (plru_touch lc block) ((n - 1) div 2) = sibling n"
proof -
  let ?p = "(n - 1) div 2"
  from assms(2) have n: "0 < n" using path_up_range by blast
  then have "n = 2 * ?p + 1 \<or> n = 2 * ?p + 2" by presburger
  then show ?thesis
  proof
    assume o: "n = 2 * ?p + 1"
    then have "odd n" by presburger
    moreover from o assms(2) have "2 * ?p + 1 \<in> set (path_up block)" by simp
    ultimately show ?thesis
      using o by (simp add: plru_touch_eq [OF assms(1)] plru_stale_def sibling_def)
  next
    assume e: "n = 2 * ?p + 2"
    then have ev: "even n" by presburger
    have "2 * ?p + 1 \<notin> set (path_up block)"
    proof
      assume "2 * ?p + 1 \<in> set (path_up block)"
      with assms(2) have "2 * ?p + 1 \<le> (n - 1) div 2"
        using e by (intro path_up_chain [of n block]) simp_all
      then show False by simp
    qed
    moreover from e assms(2) have "2 * ?p + 2 \<in> set (path_up block)" by simp
    ultimately show ?thesis
      using e ev n by (simp add: plru_touch_eq [OF assms(1)] plru_stale_def sibling_def)
  qed
qed

lemma walk_points_away:
  assumes "n \<in> set (path_down lc 0)"
  shows "plru_stale (fst (plru_walk lc 0)) n = sibling (plru_stale lc n)"
  using assms by (simp add: plru_walk_eq plru_stale_def sibling_def)

lemma plru_scan_None:
  "(\<And>j. b \<le> j \<Longrightarrow> j < 1023 \<Longrightarrow> lc j \<noteq> tag) \<Longrightarrow> plru_scan lc tag b = None"
proof (induction lc tag b rule: plru_scan.induct)
  case (1 lc tag b)
  show ?case
  proof (cases "b < 1023")
    case False
    then show ?thesis by (subst plru_scan.simps) simp
  next
    case True
    with 1(2) [of b] have f: "lc b \<noteq> tag" by simp
    have "plru_scan lc tag (b + 1) = None"
      using True f by (intro 1(1)) (simp_all add: 1(2))
    with True f show ?thesis by (subst plru_scan.simps) simp
  qed
qed

lemma plru_scan_found:
  "b \<le> block \<Longrightarrow> block < 1023 \<Longrightarrow> lc block = tag \<Longrightarrow>
   (\<And>j. b \<le> j \<Longrightarrow> j < block \<Longrightarrow> lc j \<noteq> tag) \<Longrightarrow> plru_scan lc tag b = Some block"
proof (induction lc tag b rule: plru_scan.induct)
  case (1 lc tag b)
  show ?case
  proof (cases "b = block")
    case True
    with 1(3,4) show ?thesis by (subst plru_scan.simps) simp
  next
    case False
    with 1(2) have lt: "b < block" by simp
    with 1(5) [of b] have f: "lc b \<noteq> tag" by simp
    from lt 1(3) have b: "b < 1023" by simp
    have "plru_scan lc tag (b + 1) = Some block"
      using b f lt 1(3,4) by (intro 1(1)) (simp_all add: 1(5))
    with b f show ?thesis by (subst plru_scan.simps) simp
  qed
qed

section \<open>Recency counters of reachable states\<close>

text \<open>
  A replay of at most 15000000 accesses from the empty cache leaves every recency counter
  far below \<open>2 ^ 32\<close>: a counter grows by at most one in each scan, and an iteration scans
  a set at most twice.
\<close>

lemma unat_succ_le: "unat ((x :: u64) + 1) \<le> unat x + 1"
  by (simp add: unat_word_ariths)

lemma do_lru_le:
  assumes d: "sim_set_associative_do s tag n nm = Some (s', h)"
    and b: "\<forall>w. unat (lru s w) \<le> K"
  shows "\<forall>w. unat (lru s' w) \<le> K + 1"
proof -
  from d have n: "n \<le> 16" by (auto simp: sim_set_associative_do_def split: if_splits)
  let ?s1 = "s\<lparr>lru := (\<lambda>w. if w < n then (if tags s w = tag then 0 else lru s w + 1) else lru s w)\<rparr>"
  have b1: "unat (lru ?s1 w) \<le> K + 1" for w
    using b [rule_format, of w] unat_succ_le [of "lru s w"] by simp
  have "\<exists>v<16. insert_tag_loop ?s1 tag n 0 0 0 = Some (install ?s1 v tag)"
    using n by (intro insert_tag_loop_total) simp_all
  then obtain v where v: "insert_tag_loop ?s1 tag n 0 0 0 = Some (install ?s1 v tag)" by blast
  from d n v have "s' = ?s1 \<or> s' = install ?s1 v tag"
    by (auto simp: sim_set_associative_do_def do_fold sim_set_associative_insert_tag_def
        split: if_splits)
  then show ?thesis
  proof
    assume "s' = ?s1"
    with b1 show ?thesis by blast
  next
    assume s': "s' = install ?s1 v tag"
    show ?thesis
    proof
      fix w
      show "unat (lru s' w) \<le> K + 1"
        using b1 [of w] unfolding s' by (cases "w = v") (simp_all add: install_def)
    qed
  qed
qed

lemma sa_iter_lru_le:
  assumes it: "sa_iter sets lg msk t (c, i) = Some (c', i')"
    and b: "\<forall>st w. unat (lru (c st) w) \<le> K"
  shows "\<forall>st w. unat (lru (c' st) w) \<le> K + 2"
proof (cases "ways i = 1")
  case True
  with it have "\<forall>st. lru (c' st) = lru (c st)"
    by (auto simp: sa_iter_def Let_def split: if_splits)
  with b show ?thesis by (simp add: le_SucI)
next
  case False
  let ?a = "ucast (addr t) :: u64"
  let ?st = "unat (set_index msk ?a)"
  from it False obtain s1 h where
    d1: "sim_set_associative_do (c ?st) (tag_bits lg ?a) (nat (sint (ways i)))
           (options i = OPTION_WRITE_ON_MISS \<and> op t = STORE) = Some (s1, h)"
    by (auto simp: sa_iter_def Let_def split: if_splits option.splits)
  let ?c1 = "c(?st := s1)"
  from b have "\<forall>w. unat (lru (c ?st) w) \<le> K" by simp
  from do_lru_le [OF d1 this] have s1: "\<forall>w. unat (lru s1 w) \<le> K + 1" .
  have b1: "\<forall>st w. unat (lru (?c1 st) w) \<le> K + 1"
    using s1 b by (simp add: le_SucI)
  let ?st2 = "unat (set_index msk (?a + 32))"
  from it False d1 have "c' = ?c1 \<or>
    (\<exists>s2 h2. sim_set_associative_do (?c1 ?st2) (tag_bits (ucast (mylog2 (ucast sets))) (?a + 32))
              (nat (sint (ways i))) False = Some (s2, h2) \<and> c' = ?c1(?st2 := s2))"
    by (auto simp: sa_iter_def Let_def split: if_splits option.splits)
  then show ?thesis
  proof
    assume "c' = ?c1"
    with b1 show ?thesis by (simp add: le_SucI)
  next
    assume "\<exists>s2 h2. sim_set_associative_do (?c1 ?st2) (tag_bits (ucast (mylog2 (ucast sets))) (?a + 32))
              (nat (sint (ways i))) False = Some (s2, h2) \<and> c' = ?c1(?st2 := s2)"
    then obtain s2 h2 where
      d2: "sim_set_associative_do (?c1 ?st2) (tag_bits (ucast (mylog2 (ucast sets))) (?a + 32))
              (nat (sint (ways i))) False = Some (s2, h2)" and c': "c' = ?c1(?st2 := s2)"
      by blast
    from b1 have "\<forall>w. unat (lru (?c1 ?st2) w) \<le> K + 1" by blast
    from do_lru_le [OF d2 this] have s2: "\<forall>w. unat (lru s2 w) \<le> K + 1 + 1" .
    show ?thesis
    proof (intro allI)
      fix st w
      show "unat (lru (c' st) w) \<le> K + 2"
      proof (cases "st = ?st2")
        case True
        with s2 c' show ?thesis by simp
      next
        case False
        with b1 [rule_format, of st w] c' show ?thesis by simp
      qed
    qed
  qed
qed

lemma sa_loop_lru_le:
  assumes "sa_loop sets lg msk ts (c, i) = Some (c', i')" "\<forall>st w. unat (lru (c st) w) \<le> K"
  shows "\<forall>st w. unat (lru (c' st) w) \<le> K + 2 * length ts"
  using assms
proof (induction ts arbitrary: c i K)
  case Nil
  then show ?case by simp
next
  case (Cons t ts)
  from Cons.prems(1) obtain c1 i1 where
    it: "sa_iter sets lg msk t (c, i) = Some (c1, i1)" and
    lp: "sa_loop sets lg msk ts (c1, i1) = Some (c', i')"
    by (auto split: option.splits)
  from sa_iter_lru_le [OF it Cons.prems(2)] have "\<forall>st w. unat (lru (c1 st) w) \<le> K + 2" .
  from Cons.IH [OF lp this] show ?case by simp
qed

lemma sa_reachable_counters:
  assumes "sa_loop sets lg msk ts (empty_cache, i) = Some (c', i')" "length ts \<le> 15000000"
  shows "lru (c' st) w < 2 ^ 32 - 1"
proof -
  have "\<forall>st w. unat (lru (empty_cache st) w) \<le> 0" by (simp add: empty_cache_def empty_set_def)
  from sa_loop_lru_le [OF assms(1) this] have "unat (lru (c' st) w) \<le> 2 * length ts" by simp
  with assms(2) have "unat (lru (c' st) w) < 2 ^ 32 - 1" by simp
  then show ?thesis by (simp add: word_less_nat_alt)
qed

lemma fa_insert_loop_lru:
  "\<forall>b. block_lru (fst (fa_insert_loop c tag w m L) b) = block_lru (c b) \<or>
       block_lru (fst (fa_insert_loop c tag w m L) b) = 0"
proof (induction c tag w m L rule: fa_insert_loop.induct)
  case (1 c tag w m L)
  show ?case
  proof (cases "w < 512")
    case False
    then show ?thesis by (subst fa_insert_loop.simps, subst fa_insert_loop.simps) simp
  next
    case True
    let ?m' = "if block_lru (c w) > ucast L then of_nat w else m"
    let ?L' = "if block_lru (c w) > ucast L then ucast (block_lru (c w)) else L"
    show ?thesis
    proof (cases "block_tag (c w) = 0")
      case z: True
      have "fst (fa_insert_loop c tag w m L) = c(w := \<lparr>block_tag = tag, block_lru = 0\<rparr>)"
        using True z by (subst fa_insert_loop.simps) (simp add: Let_def)
      then show ?thesis by simp
    next
      case nz: False
      have step: "fa_insert_loop c tag w m L = fa_insert_loop c tag (w + 1) ?m' ?L'"
        using True nz by (subst fa_insert_loop.simps) (simp add: Let_def)
      have "\<forall>b. block_lru (fst (fa_insert_loop c tag (w + 1) ?m' ?L') b) = block_lru (c b) \<or>
                block_lru (fst (fa_insert_loop c tag (w + 1) ?m' ?L') b) = 0"
        using True nz by (intro 1 [where x = "(?L', ?m')"]) simp_all
      then show ?thesis unfolding step .
    qed
  qed
qed

lemma fa_iter_lru_le:
  assumes it: "fa_iter t (c, i) = (c', i')" and b: "\<forall>b. unat (block_lru (c b)) \<le> K"
  shows "\<forall>b. unat (block_lru (c' b)) \<le> K + 1"
proof -
  let ?tag = "drop_bit (unat block_id_offset) (ucast (addr t) :: u64)"
  obtain c1 h where s: "fold (fa_search_slot ?tag) [0..<512] (c, False) = (c1, h)"
    by (cases "fold (fa_search_slot ?tag) [0..<512] (c, False)")
  have b1: "unat (block_lru (c1 x)) \<le> K + 1" for x
    using s b [rule_format, of x] unat_succ_le [of "block_lru (c x)"]
    by (auto simp: fa_search_fold)
  obtain c2 he m where f: "fa_insert_loop c1 ?tag 0 0 0 = (c2, he, m)"
    by (cases "fa_insert_loop c1 ?tag 0 0 0")
  have b2: "unat (block_lru (c2 x)) \<le> K + 1" for x
    using fa_insert_loop_lru [of c1 ?tag 0 0 0, rule_format, of x] b1 [of x] f by auto
  from it s f have "c' = c1 \<or> c' = c2 \<or> c' = c2(unat m := \<lparr>block_tag = ?tag, block_lru = 0\<rparr>)"
    by (auto simp: fa_iter_def Let_def split: if_splits)
  with b1 b2 show ?thesis by auto
qed

lemma fa_fold_lru_le:
  assumes "fold fa_iter ts (c, i) = (c', i')" "\<forall>b. unat (block_lru (c b)) \<le> K"
  shows "\<forall>b. unat (block_lru (c' b)) \<le> K + length ts"
  using assms
proof (induction ts arbitrary: c i K)
  case Nil
  then show ?case by simp
next
  case (Cons t ts)
  obtain c1 i1 where it: "fa_iter t (c, i) = (c1, i1)" by (cases "fa_iter t (c, i)")
  with Cons.prems(1) have lp: "fold fa_iter ts (c1, i1) = (c', i')" by simp
  from fa_iter_lru_le [OF it Cons.prems(2)] have "\<forall>b. unat (block_lru (c1 b)) \<le> K + 1" .
  from Cons.IH [OF lp this] show ?case by simp
qed

lemma fa_reachable_counters:
  assumes "fold fa_iter ts (fa_empty_cache, i) = (c', i')" "length ts \<le> 15000000"
  shows "block_lru (c' b) < 2 ^ 32 - 1"
proof -
  have "\<forall>b. unat (block_lru (fa_empty_cache b)) \<le> 0" by (simp add: fa_empty_cache_def)
  from fa_fold_lru_le [OF assms(1) this] have "unat (block_lru (c' b)) \<le> length ts" by simp
  with assms(2) have "unat (block_lru (c' b)) < 2 ^ 32 - 1" by simp
  then show ?thesis by (simp add: word_less_nat_alt)
qed

section \<open>The way chosen by an allocating miss\<close>

lemma do_miss_insert_choice:
  assumes n: "2 \<le> n" "n \<le> 16"
    and miss: "\<forall>w<n. tags s w \<noteq> tag"
    and bound: "\<forall>w<n. lru s w < 2 ^ 32 - 1"
  shows "\<exists>v<n. sim_set_associative_do s tag n False = Some (install (aged s n) v tag, False) \<and>
           (if \<exists>w<n. \<not> valid s w then \<not> valid s v \<and> (\<forall>w<v. valid s w)
            else (\<forall>w<n. lru (aged s n) w \<le> lru (aged s n) v) \<and>
                 (\<forall>w<v. lru (aged s n) w < lru (aged s n) v))"
proof (cases "\<exists>w<n. \<not> valid s w")
  case True
  define v where "v = (LEAST w. w < n \<and> \<not> valid s w)"
  from True have v: "v < n \<and> \<not> valid s v"
    unfolding v_def by (rule LeastI_ex)
  have before: "\<forall>w<v. valid s w"
  proof (intro allI impI)
    fix w assume "w < v"
    then have "\<not> (w < n \<and> \<not> valid s w)" unfolding v_def by (rule not_less_Least)
    with \<open>w < v\<close> v show "valid s w" by simp
  qed
  have "insert_tag_loop (aged s n) tag n 0 0 0 = Some (install (aged s n) v tag)"
    using v before n(2) by (intro insert_tag_loop_invalid) simp_all
  then show ?thesis
    using True v before n miss
    by (auto simp: do_miss_insert sim_set_associative_insert_tag_def)
next
  case False
  have b: "\<forall>j<n. lru (aged s n) j < 2 ^ 32"
  proof (intro allI impI)
    fix j assume j: "j < n"
    with bound have "lru s j < 2 ^ 32 - 1" by simp
    then have "unat (lru s j) < 2 ^ 32 - 1" by (simp add: word_less_nat_alt)
    then have "unat (lru s j + 1) < 2 ^ 32" by (simp add: unat_word_ariths)
    then show "lru (aged s n) j < 2 ^ 32" using j by (simp add: word_less_nat_alt)
  qed
  have "\<exists>v. insert_tag_loop (aged s n) tag n 0 0 0 = Some (install (aged s n) v tag) \<and>
          (0 < n \<longrightarrow> v < n) \<and> (\<forall>j<n. lru (aged s n) j \<le> lru (aged s n) v) \<and>
          (\<forall>j<v. lru (aged s n) j < lru (aged s n) v)"
    using False n(2) b by (intro insert_tag_loop_full lru_inv_init) simp_all
  then obtain v where v: "insert_tag_loop (aged s n) tag n 0 0 0 = Some (install (aged s n) v tag)"
    "v < n" "\<forall>j<n. lru (aged s n) j \<le> lru (aged s n) v" "\<forall>j<v. lru (aged s n) j < lru (aged s n) v"
    using n(1) by auto
  show ?thesis
  proof (intro exI conjI)
    show "v < n" by fact
    show "sim_set_associative_do s tag n False = Some (install (aged s n) v tag, False)"
      using v(1) n miss by (simp add: do_miss_insert sim_set_associative_insert_tag_def)
    show "if \<exists>w<n. \<not> valid s w then \<not> valid s v \<and> (\<forall>w<v. valid s w)
          else (\<forall>w<n. lru (aged s n) w \<le> lru (aged s n) v) \<and>
               (\<forall>w<v. lru (aged s n) w < lru (aged s n) v)"
      using False v(3,4) by (simp only: if_False simp_thms)
  qed
qed

lemma succ_order_small:
  fixes x y :: u64
  assumes "x < 2 ^ 32 - 1" "y < 2 ^ 32 - 1"
  shows "x + 1 \<le> y + 1 \<longleftrightarrow> x \<le> y" "x + 1 < y + 1 \<longleftrightarrow> x < y"
proof -
  from assms have "unat x < 2 ^ 32 - 1" "unat y < 2 ^ 32 - 1" by (simp_all add: word_less_nat_alt)
  then have "unat (x + 1) = unat x + 1" "unat (y + 1) = unat y + 1"
    by (simp_all add: unat_word_ariths)
  then show "x + 1 \<le> y + 1 \<longleftrightarrow> x \<le> y" "x + 1 < y + 1 \<longleftrightarrow> x < y"
    by (simp_all add: word_le_nat_alt word_less_nat_alt)
qed

subsection \<open>Stores that miss\<close>

lemma no_write_allocate_assoc:
  "(options i = OPTION_WRITE_ON_MISS \<and> op t = STORE \<and> 2 \<le> unat (ways i) \<and> unat (ways i) \<le> 16 \<and>
    sa_decompose i (ucast (addr t)) = (st, tag) \<and>
    (\<forall>w<unat (ways i). tags (c (unat st)) w \<noteq> tag) \<longrightarrow>
      sa_iter (sa_sets i) (sa_log i) (sa_mask i) t (c, i) =
        Some (c(unat st := aged (c (unat st)) (unat (ways i))), i) \<and>
      tags (aged (c (unat st)) (unat (ways i))) = tags (c (unat st)) \<and>
      valid (aged (c (unat st)) (unat (ways i))) = valid (c (unat st))) \<and>
   (options i = OPTION_WRITE_ON_MISS \<and> 2 \<le> unat (ways i) \<and> unat (ways i) \<le> 16 \<and> hits i = 0 \<and>
    map_option hits (sim_set_associative i [\<lparr>op = STORE, addr = A\<rparr>]) = Some 0 \<longrightarrow>
      map_option hits (sim_set_associative i [\<lparr>op = STORE, addr = A\<rparr>, \<lparr>op = LOAD, addr = A\<rparr>])
        = Some 0)"
proof (intro conjI impI)
  assume a: "options i = OPTION_WRITE_ON_MISS \<and> op t = STORE \<and> 2 \<le> unat (ways i) \<and>
    unat (ways i) \<le> 16 \<and> sa_decompose i (ucast (addr t)) = (st, tag) \<and>
    (\<forall>w<unat (ways i). tags (c (unat st)) w \<noteq> tag)"
  then show "sa_iter (sa_sets i) (sa_log i) (sa_mask i) t (c, i) =
        Some (c(unat st := aged (c (unat st)) (unat (ways i))), i)"
    by (intro store_miss_iter) blast+
  show "tags (aged (c (unat st)) (unat (ways i))) = tags (c (unat st))" by simp
  show "valid (aged (c (unat st)) (unat (ways i))) = valid (c (unat st))" by simp
next
  let ?S = "\<lparr>op = STORE, addr = A\<rparr>" and ?L = "\<lparr>op = LOAD, addr = A\<rparr>"
  assume a: "options i = OPTION_WRITE_ON_MISS \<and> 2 \<le> unat (ways i) \<and> unat (ways i) \<le> 16 \<and>
    hits i = 0 \<and> map_option hits (sim_set_associative i [?S]) = Some 0"
  then have o: "options i = OPTION_WRITE_ON_MISS" and w: "2 \<le> unat (ways i)" "unat (ways i) \<le> 16"
    and fresh: "hits i = 0" and m: "map_option hits (sim_set_associative i [?S]) = Some 0"
    by simp_all
  obtain st tag where d: "sa_decompose i (ucast A) = (st, tag)" by (cases "sa_decompose i (ucast A)")
  have tag: "tag \<noteq> 0"
  proof
    assume "tag = 0"
    with d have "snd (sa_decompose i (ucast (addr ?S))) = 0" by simp
    from store_hit_run [OF w this] m fresh show False by simp
  qed
  let ?i0 = "i\<lparr>accesses := of_nat (length [?S, ?L])\<rparr>"
  let ?n = "unat (ways i)"
  let ?c1 = "empty_cache(unat st := aged empty_set ?n)"
  have "sa_iter (sa_sets ?i0) (sa_log ?i0) (sa_mask ?i0) ?S (empty_cache, ?i0) =
          Some (empty_cache(unat st := aged (empty_cache (unat st)) (unat (ways ?i0))), ?i0)"
  proof (rule store_miss_iter [where tag = tag])
    show "options ?i0 = OPTION_WRITE_ON_MISS" using o by simp
    show "op ?S = STORE" by simp
    show "2 \<le> unat (ways ?i0)" "unat (ways ?i0) \<le> 16" using w by simp_all
    show "sa_decompose ?i0 (ucast (addr ?S)) = (st, tag)" using d by simp
    show "\<forall>w<unat (ways ?i0). tags (empty_cache (unat st)) w \<noteq> tag"
      using tag by (simp add: empty_cache_def empty_set_def)
  qed
  then have 1: "sa_iter (sa_sets i) (sa_log i) (sa_mask i) ?S (empty_cache, ?i0) = Some (?c1, ?i0)"
    by (simp add: empty_cache_def)
  have "\<exists>c'. sa_iter (sa_sets ?i0) (sa_log ?i0) (sa_mask ?i0) ?L (?c1, ?i0) = Some (c', ?i0)"
  proof (rule load_miss_iter [where st = st and tag = tag])
    show "options ?i0 = OPTION_WRITE_ON_MISS" using o by simp
    show "2 \<le> unat (ways ?i0)" "unat (ways ?i0) \<le> 16" using w by simp_all
    show "sa_decompose ?i0 (ucast (addr ?L)) = (st, tag)" using d by simp
    show "\<forall>w<unat (ways ?i0). tags (?c1 (unat st)) w \<noteq> tag"
      using tag by (simp add: empty_set_def)
    show "op ?L = LOAD" by simp
  qed
  then obtain c' where 2: "sa_iter (sa_sets i) (sa_log i) (sa_mask i) ?L (?c1, ?i0) = Some (c', ?i0)"
    by auto
  from w have "32 * ways i \<noteq> 0" by (intro ways_nonzero) simp_all
  with 1 2 fresh show "map_option hits (sim_set_associative i [?S, ?L]) = Some 0"
    by (simp add: sim_set_associative_def)
qed

lemma sa_iter_direct_miss:
  assumes "ways i = 1" "sa_decompose i (ucast (addr t)) = (st, tag)" "unat st < 1024"
    "tags (c (unat st)) 0 \<noteq> tag"
  shows "sa_iter (sa_sets i) (sa_log i) (sa_mask i) t (c, i) =
           Some (c(unat st := (c (unat st))\<lparr>tags := (tags (c (unat st)))(0 := tag)\<rparr>), i)"
  using assms by (simp add: sa_iter_direct_decompose)

subsection \<open>Iterations under the prefetch options\<close>


subsection \<open>Filling the fully associative cache\<close>














section \<open>The direct-mapped scenario\<close>

text \<open>
  Claim C1, as stated: the 16 KB direct-mapped run over Load 0x0, Load 0x0, Load 0x20,
  Load 0x0 reports one hit. It does not.
\<close>

theorem direct_mapped_scenario_counterexample:
  "map_option hits
     (sim_set_associative \<lparr>hits = 0, accesses = 0, kb = 16, ways = 1, options = OPTION_NONE\<rparr>
        [\<lparr>op = LOAD, addr = 0\<rparr>, \<lparr>op = LOAD, addr = 0\<rparr>, \<lparr>op = LOAD, addr = 0x20\<rparr>,
         \<lparr>op = LOAD, addr = 0\<rparr>]) \<noteq> Some 1"
  by code_simp

text \<open>
  Claim C1, amended: the run reports four hits in four accesses. Address 0x20 has set
  index 1 and address 0x0 set index 0; both have tag 0, which every slot of the fresh
  cache already holds, so every access of the trace is a hit.
\<close>

theorem direct_mapped_scenario:
  "map_option hits
     (sim_set_associative \<lparr>hits = 0, accesses = 0, kb = 16, ways = 1, options = OPTION_NONE\<rparr>
        [\<lparr>op = LOAD, addr = 0\<rparr>, \<lparr>op = LOAD, addr = 0\<rparr>, \<lparr>op = LOAD, addr = 0x20\<rparr>,
         \<lparr>op = LOAD, addr = 0\<rparr>]) = Some 4
   \<and> map_option accesses
     (sim_set_associative \<lparr>hits = 0, accesses = 0, kb = 16, ways = 1, options = OPTION_NONE\<rparr>
        [\<lparr>op = LOAD, addr = 0\<rparr>, \<lparr>op = LOAD, addr = 0\<rparr>, \<lparr>op = LOAD, addr = 0x20\<rparr>,
         \<lparr>op = LOAD, addr = 0\<rparr>]) = Some 4
   \<and> set_index (sa_mask \<lparr>hits = 0, accesses = 0, kb = 16, ways = 1, options = OPTION_NONE\<rparr>) 0x20 = 1
   \<and> set_index (sa_mask \<lparr>hits = 0, accesses = 0, kb = 16, ways = 1, options = OPTION_NONE\<rparr>) 0 = 0"
  by code_simp

section \<open>Counters after a replay\<close>

text \<open>
  Claim C2. For every engine and every trace that fits \<^verbatim>\<open>g_traces\<close> (at most 15000000
  accesses), a run started with \<^verbatim>\<open>hits = 0\<close> ends with \<^verbatim>\<open>accesses\<close> equal to the length of
  the trace and \<^verbatim>\<open>hits\<close> at most \<^verbatim>\<open>accesses\<close>. For \<^verbatim>\<open>sim_set_associative\<close> this holds for
  every \<^verbatim>\<open>ways\<close>, \<^verbatim>\<open>kb\<close> and option with which the run is defined, and the run is defined
  for one way with \<^verbatim>\<open>kb\<close> below 64 and for 2 to 16 ways.
\<close>

theorem counters_after_replay:
  assumes len: "length g_traces \<le> 15000000" and fresh: "hits i = 0"
  shows "(\<forall>i'. sim_set_associative i g_traces = Some i' \<longrightarrow>
            unat (accesses i') = length g_traces \<and> hits i' \<le> accesses i') \<and>
         (ways i = 1 \<and> unat (kb i) < 64 \<or> 2 \<le> unat (ways i) \<and> unat (ways i) \<le> 16 \<longrightarrow>
            sim_set_associative i g_traces \<noteq> None) \<and>
         unat (accesses (sim_fully_associative i g_traces)) = length g_traces \<and>
         hits (sim_fully_associative i g_traces) \<le> accesses (sim_fully_associative i g_traces) \<and>
         unat (accesses (sim_fully_associative_pseudo i g_traces)) = length g_traces \<and>
         hits (sim_fully_associative_pseudo i g_traces)
           \<le> accesses (sim_fully_associative_pseudo i g_traces)"
proof -
  let ?i0 = "i\<lparr>accesses := of_nat (length g_traces)\<rparr>"
  from len fresh have nw: "unat (hits ?i0) + length g_traces < 2 ^ 32" by simp
  have sa: "unat (accesses i') = length g_traces \<and> hits i' \<le> accesses i'"
    if "sim_set_associative i g_traces = Some i'" for i'
  proof -
    from that obtain c' where
      "sa_loop (sa_sets i) (sa_log i) (sa_mask i) g_traces (empty_cache, ?i0) = Some (c', i')"
      by (auto simp: sim_set_associative_def Let_def split: if_splits)
    from sa_loop_hits [OF this nw] show ?thesis using len fresh by (rule hits_run_counters)
  qed
  have fa: "hits_run (length g_traces) ?i0 (sim_fully_associative i g_traces)"
    unfolding sim_fully_associative_def using fa_iter_hits nw by (rule fold_hits)
  have pl: "hits_run (length g_traces) ?i0 (sim_fully_associative_pseudo i g_traces)"
    unfolding sim_fully_associative_pseudo_def using plru_iter_hits nw by (rule fold_hits)
  show ?thesis
    using sa sim_set_associative_defined [of i g_traces]
      hits_run_counters [OF fa len fresh] hits_run_counters [OF pl len fresh]
    by auto
qed

theorem counters_after_replay_witness:
  "(\<exists>i'. sim_set_associative \<lparr>hits = 0, accesses = 0, kb = 16, ways = 4, options = OPTION_PREFETCH_ON_MISS\<rparr>
           [\<lparr>op = LOAD, addr = 0x1234\<rparr>, \<lparr>op = STORE, addr = 0x1234\<rparr>, \<lparr>op = LOAD, addr = 0\<rparr>] = Some i' \<and>
         unat (accesses i') = 3 \<and> hits i' \<le> accesses i') \<and>
   unat (accesses (sim_fully_associative \<lparr>hits = 0, accesses = 0, kb = 16, ways = 4, options = OPTION_PREFETCH_ON_MISS\<rparr>
           [\<lparr>op = LOAD, addr = 0x1234\<rparr>, \<lparr>op = STORE, addr = 0x1234\<rparr>, \<lparr>op = LOAD, addr = 0\<rparr>])) = 3 \<and>
   unat (accesses (sim_fully_associative_pseudo \<lparr>hits = 0, accesses = 0, kb = 16, ways = 4, options = OPTION_PREFETCH_ON_MISS\<rparr>
           [\<lparr>op = LOAD, addr = 0x1234\<rparr>, \<lparr>op = STORE, addr = 0x1234\<rparr>, \<lparr>op = LOAD, addr = 0\<rparr>])) = 3"
proof -
  let ?i = "\<lparr>hits = 0, accesses = 0, kb = 16, ways = 4, options = OPTION_PREFETCH_ON_MISS\<rparr>"
  let ?tr = "[\<lparr>op = LOAD, addr = 0x1234\<rparr>, \<lparr>op = STORE, addr = 0x1234\<rparr>, \<lparr>op = LOAD, addr = 0\<rparr>]"
  have h: "length ?tr \<le> 15000000" "hits ?i = 0" by simp_all
  have c: "ways ?i = 1 \<and> unat (kb ?i) < 64 \<or> 2 \<le> unat (ways ?i) \<and> unat (ways ?i) \<le> 16" by simp
  note t = counters_after_replay [OF h]
  from t c obtain i' where "sim_set_associative ?i ?tr = Some i'" by blast
  with t show ?thesis by auto
qed

section \<open>The first access with tag 0\<close>

text \<open>
  Claim C3. On a fresh cache the first access to an address whose computed tag is 0 is
  counted as a hit by every engine: the direct-mapped path (tag \<^verbatim>\<open>addr >> 10\<close>), the
  set-associative path with 2 to 16 ways (tag \<^verbatim>\<open>addr >> (5 + log)\<close>), and both fully
  associative engines (tag \<^verbatim>\<open>addr >> 5\<close>). The slots start as zero and the comparison of
  the tags reads no validity flag.
\<close>

theorem first_access_tag_zero_hits:
  assumes fresh: "hits i = 0"
  shows "(ways i = 1 \<and> drop_bit 10 (ucast (addr t) :: u64) = 0 \<longrightarrow>
            map_option hits (sim_set_associative i [t]) = Some 1) \<and>
         (2 \<le> unat (ways i) \<and> unat (ways i) \<le> 16 \<and> tag_bits (sa_log i) (ucast (addr t)) = 0 \<longrightarrow>
            map_option hits (sim_set_associative i [t]) = Some 1) \<and>
         (drop_bit (unat block_id_offset) (ucast (addr t) :: u64) = 0 \<longrightarrow>
            hits (sim_fully_associative i [t]) = 1 \<and>
            hits (sim_fully_associative_pseudo i [t]) = 1)"
proof (intro conjI impI)
  assume a: "ways i = 1 \<and> drop_bit 10 (ucast (addr t) :: u64) = 0"
  then have "32 * ways i \<noteq> 0" by simp
  with a fresh show "map_option hits (sim_set_associative i [t]) = Some 1"
    by (simp add: sim_set_associative_def sa_iter_direct_tag0)
next
  assume a: "2 \<le> unat (ways i) \<and> unat (ways i) \<le> 16 \<and> tag_bits (sa_log i) (ucast (addr t)) = 0"
  then have c: "ways i = 1 \<and> unat (kb i) < 64 \<or> 2 \<le> unat (ways i) \<and> unat (ways i) \<le> 16"
    by simp
  from sa_config_defined(1) [OF c] obtain k where k: "k \<le> 10" "sa_mask i = mask k" by blast
  let ?i0 = "i\<lparr>accesses := of_nat (length [t])\<rparr>"
  from a have "2 \<le> unat (ways ?i0)" "unat (ways ?i0) \<le> 16" by simp_all
  from sa_iter_assoc_tag0 [OF k(1) this, of "sa_log i" t "sa_sets i"] a obtain c' where
    "sa_iter (sa_sets i) (sa_log i) (mask k) t (empty_cache, ?i0) = Some (c', ?i0\<lparr>hits := hits ?i0 + 1\<rparr>)"
    by blast
  with k(2) sa_config_defined(3) [OF c] fresh
  show "map_option hits (sim_set_associative i [t]) = Some 1"
    by (simp add: sim_set_associative_def)
next
  assume a: "drop_bit (unat block_id_offset) (ucast (addr t) :: u64) = 0"
  have "\<exists>b<512. block_tag (fa_empty_cache b) = 0"
    by (intro exI [of _ 0]) (simp add: fa_empty_cache_def)
  with a fresh show "hits (sim_fully_associative i [t]) = 1"
    by (simp add: sim_fully_associative_def fa_iter_def fa_search_fold)
next
  assume a: "drop_bit (unat block_id_offset) (ucast (addr t) :: u64) = 0"
  have "plru_scan (\<lambda>_. 0) 0 511 = Some 511" by (rule plru_scan_first) simp
  with a fresh show "hits (sim_fully_associative_pseudo i [t]) = 1"
    by (simp add: sim_fully_associative_pseudo_def plru_iter_def)
qed

theorem first_access_tag_zero_hits_witness:
  "map_option hits (sim_set_associative \<lparr>hits = 0, accesses = 0, kb = 16, ways = 1, options = OPTION_NONE\<rparr>
      [\<lparr>op = LOAD, addr = 0x3E0\<rparr>]) = Some 1 \<and>
   map_option hits (sim_set_associative \<lparr>hits = 0, accesses = 0, kb = 16, ways = 2, options = OPTION_NONE\<rparr>
      [\<lparr>op = LOAD, addr = 0x1FE0\<rparr>]) = Some 1 \<and>
   hits (sim_fully_associative \<lparr>hits = 0, accesses = 0, kb = 16, ways = 2, options = OPTION_NONE\<rparr>
      [\<lparr>op = LOAD, addr = 0x1F\<rparr>]) = 1 \<and>
   hits (sim_fully_associative_pseudo \<lparr>hits = 0, accesses = 0, kb = 16, ways = 2, options = OPTION_NONE\<rparr>
      [\<lparr>op = LOAD, addr = 0x1F\<rparr>]) = 1"
proof -
  let ?d = "\<lparr>hits = 0, accesses = 0, kb = 16, ways = 1, options = OPTION_NONE\<rparr>"
  let ?s = "\<lparr>hits = 0, accesses = 0, kb = 16, ways = 2, options = OPTION_NONE\<rparr>"
  have d: "ways ?d = 1 \<and> drop_bit 10 (ucast (addr \<lparr>op = LOAD, addr = 0x3E0\<rparr>) :: u64) = 0"
    by simp
  have "tag_bits (sa_log ?s) (ucast (addr \<lparr>op = LOAD, addr = 0x1FE0\<rparr>)) = 0"
    by code_simp
  then have s: "2 \<le> unat (ways ?s) \<and> unat (ways ?s) \<le> 16 \<and>
      tag_bits (sa_log ?s) (ucast (addr \<lparr>op = LOAD, addr = 0x1FE0\<rparr>)) = 0"
    by simp
  have f: "drop_bit (unat block_id_offset) (ucast (addr \<lparr>op = LOAD, addr = 0x1F\<rparr>) :: u64) = 0"
    by (simp add: block_id_offset_def)
  show ?thesis
    using first_access_tag_zero_hits [of ?d "\<lparr>op = LOAD, addr = 0x3E0\<rparr>"] d
      first_access_tag_zero_hits [of ?s "\<lparr>op = LOAD, addr = 0x1FE0\<rparr>"] s
      first_access_tag_zero_hits [of ?s "\<lparr>op = LOAD, addr = 0x1F\<rparr>"] f
    by (simp only: ThreadInfo.select_convs simp_thms)
qed

section \<open>Address decomposition of the set-associative engine\<close>

text \<open>
  Claim C4, as stated: for every configured size and number of ways the engine decomposes
  an address with \<open>numSets = totalSizeBytes / (32 * ways)\<close>. It does not: with 32 KB and two
  ways the engine still uses the 256 sets of a 16 KB cache, so address 0x2000 gets set 0
  and tag 1 where the claim gives set 256 and tag 0.
\<close>

theorem decomposition_counterexample:
  "sa_decompose \<lparr>hits = 0, accesses = 0, kb = 32, ways = 2, options = OPTION_NONE\<rparr> 0x2000
     \<noteq> spec_decompose 32 2 0x2000"
proof -
  let ?i = "\<lparr>hits = 0, accesses = 0, kb = 32, ways = 2, options = OPTION_NONE\<rparr>"
  have "spec_numSets 16 (unat (ways ?i)) = 2 ^ 8" by (simp add: spec_numSets_def)
  then have f: "floor_log2 (spec_numSets 16 (unat (ways ?i))) = 8"
    by (simp only: floor_log2_power)
  have "sa_decompose ?i 0x2000 =
          (drop_bit 5 0x2000 AND mask (floor_log2 (spec_numSets 16 (unat (ways ?i)))),
           drop_bit (5 + floor_log2 (spec_numSets 16 (unat (ways ?i)))) 0x2000)"
    by (rule sa_decompose_assoc) simp_all
  then have code: "sa_decompose ?i 0x2000 = (0, 1)"
    unfolding f by (simp add: mask_eq_exp_minus_1)
  have "spec_numSets 32 2 = 2 ^ 9" by (simp add: spec_numSets_def)
  then have "spec_decompose 32 2 0x2000 = (drop_bit 5 0x2000 AND mask 9, drop_bit (5 + 9) 0x2000)"
    by (rule spec_decompose_pow2)
  then have spec: "spec_decompose 32 2 0x2000 = (256, 0)"
    by (simp add: mask_eq_exp_minus_1)
  show ?thesis unfolding code spec by simp
qed

text \<open>
  Claim C4, amended. With 2 to 16 ways the engine ignores \<^verbatim>\<open>kb\<close> and takes
  \<open>numSets = 16384 / (32 * ways)\<close>; the index is \<open>(address >> 5)\<close> masked to the low
  \<open>floor_log2 numSets\<close> bits and the tag is \<open>address >> (5 + floor_log2 numSets)\<close>, which for
  a power-of-two \<open>numSets\<close> is the decomposition of the claim at 16 KB. With one way
  \<open>numSets = kb * 1024 / 32\<close> and the index is masked in the same way (for a power of two,
  it is the index of the claim), while the tag is \<open>address >> 10\<close> for every size. By
  \<open>sa_iter_direct_decompose\<close> and \<open>sa_iter_assoc_access\<close> an iteration reads and writes the
  cache through this decomposition only.
\<close>

theorem decomposition_of_the_engine:
  "(2 \<le> unat (ways i) \<and> unat (ways i) \<le> 16 \<longrightarrow>
      sa_decompose i a =
        (drop_bit 5 a AND mask (floor_log2 (spec_numSets 16 (unat (ways i)))),
         drop_bit (5 + floor_log2 (spec_numSets 16 (unat (ways i)))) a)) \<and>
   (2 \<le> unat (ways i) \<and> unat (ways i) \<le> 16 \<and> spec_numSets 16 (unat (ways i)) = 2 ^ k \<longrightarrow>
      sa_decompose i a = spec_decompose 16 (unat (ways i)) a) \<and>
   (ways i = 1 \<and> unat (kb i) < 4194304 \<longrightarrow>
      sa_decompose i a =
        (drop_bit 5 a AND mask (floor_log2 (spec_numSets (unat (kb i)) 1)), drop_bit 10 a)) \<and>
   (ways i = 1 \<and> unat (kb i) < 4194304 \<and> spec_numSets (unat (kb i)) 1 = 2 ^ k \<longrightarrow>
      sa_decompose i a = (fst (spec_decompose (unat (kb i)) 1 a), drop_bit 10 a))"
  by (auto simp: sa_decompose_assoc sa_decompose_direct spec_decompose_pow2 floor_log2_power)

theorem decomposition_of_the_engine_witness:
  "sa_decompose \<lparr>hits = 0, accesses = 0, kb = 32, ways = 2, options = OPTION_NONE\<rparr> 0x2000
     = spec_decompose 16 2 0x2000 \<and>
   sa_decompose \<lparr>hits = 0, accesses = 0, kb = 32, ways = 2, options = OPTION_NONE\<rparr> 0x2000 = (0, 1) \<and>
   sa_decompose \<lparr>hits = 0, accesses = 0, kb = 16, ways = 1, options = OPTION_NONE\<rparr> 0x2400
     = (fst (spec_decompose 16 1 0x2400), 9)"
proof -
  let ?i = "\<lparr>hits = 0, accesses = 0, kb = 32, ways = 2, options = OPTION_NONE\<rparr>"
  let ?d = "\<lparr>hits = 0, accesses = 0, kb = 16, ways = 1, options = OPTION_NONE\<rparr>"
  have n: "spec_numSets 16 (unat (ways ?i)) = 2 ^ 8" "spec_numSets (unat (kb ?d)) 1 = 2 ^ 9"
    by (simp_all add: spec_numSets_def)
  have f: "floor_log2 (spec_numSets 16 (unat (ways ?i))) = 8"
    unfolding n by (rule floor_log2_power)
  have h: "2 \<le> unat (ways ?i) \<and> unat (ways ?i) \<le> 16" "ways ?d = 1 \<and> unat (kb ?d) < 4194304"
    by simp_all
  from decomposition_of_the_engine [of ?i "0x2000" 8] h(1) n(1)
  have "sa_decompose ?i 0x2000 = spec_decompose 16 (unat (ways ?i)) 0x2000"
    "sa_decompose ?i 0x2000 =
       (drop_bit 5 0x2000 AND mask (floor_log2 (spec_numSets 16 (unat (ways ?i)))),
        drop_bit (5 + floor_log2 (spec_numSets 16 (unat (ways ?i)))) 0x2000)"
    by blast+
  moreover from decomposition_of_the_engine [of ?d "0x2400" 9] h(2) n(2)
  have "sa_decompose ?d 0x2400 = (fst (spec_decompose (unat (kb ?d)) 1 0x2400), drop_bit 10 0x2400)"
    by blast
  ultimately show ?thesis
    unfolding f by (simp add: mask_eq_exp_minus_1)
qed

section \<open>Allocation in the set-associative engine\<close>

text \<open>
  Claim C5. In the set-associative engine with at least two ways, a miss that allocates
  (\<^verbatim>\<open>no_modify\<close> is false) chooses one way \<open>v\<close>: it writes the tag into \<open>v\<close>, sets the valid
  flag of \<open>v\<close>, clears the counter of \<open>v\<close>, and leaves the other ways as the scan has left
  them (tags and flags unchanged, counters one older). The way \<open>v\<close> is the first way, in
  scan order, whose valid flag is clear; a valid way is overwritten only when every way
  is valid, and then \<open>v\<close> is the first way that holds the largest recency counter. The
  counters are below \<open>2 ^ 32 - 1\<close>, so that they fit the local \<^verbatim>\<open>lru_largest\<close> and the scan
  keeps their order; by \<open>sa_reachable_counters\<close> every set that a replay reaches is of this
  kind.
\<close>

theorem insert_prefers_invalid_then_lru:
  assumes n: "2 \<le> n" "n \<le> 16"
    and miss: "\<forall>w<n. tags s w \<noteq> tag"
    and bound: "\<forall>w<n. lru s w < 2 ^ 32 - 1"
  shows "\<exists>v<n. \<exists>s'. sim_set_associative_do s tag n False = Some (s', False) \<and>
           tags s' = (tags s)(v := tag) \<and>
           valid s' = (valid s)(v := True) \<and>
           lru s' = (\<lambda>w. if w = v then 0 else if w < n then lru s w + 1 else lru s w) \<and>
           (if \<exists>w<n. \<not> valid s w then \<not> valid s v \<and> (\<forall>w<v. valid s w)
            else (\<forall>w<n. lru s w \<le> lru s v) \<and> (\<forall>w<v. lru s w < lru s v))"
proof -
  from do_miss_insert_choice [OF n miss bound] obtain v where v: "v < n"
    "sim_set_associative_do s tag n False = Some (install (aged s n) v tag, False)"
    "if \<exists>w<n. \<not> valid s w then \<not> valid s v \<and> (\<forall>w<v. valid s w)
     else (\<forall>w<n. lru (aged s n) w \<le> lru (aged s n) v) \<and>
          (\<forall>w<v. lru (aged s n) w < lru (aged s n) v)"
    by blast
  let ?s' = "install (aged s n) v tag"
  have t: "tags ?s' = (tags s)(v := tag)" by (simp add: install_def)
  have vl: "valid ?s' = (valid s)(v := True)" by (simp add: install_def)
  have l: "lru ?s' = (\<lambda>w. if w = v then 0 else if w < n then lru s w + 1 else lru s w)"
    by (simp add: install_def fun_eq_iff)
  have c: "if \<exists>w<n. \<not> valid s w then \<not> valid s v \<and> (\<forall>w<v. valid s w)
           else (\<forall>w<n. lru s w \<le> lru s v) \<and> (\<forall>w<v. lru s w < lru s v)"
  proof (cases "\<exists>w<n. \<not> valid s w")
    case True
    with v(3) show ?thesis by simp
  next
    case False
    with v(3) have a: "\<forall>w<n. lru (aged s n) w \<le> lru (aged s n) v"
      "\<forall>w<v. lru (aged s n) w < lru (aged s n) v" by simp_all
    have "lru s w \<le> lru s v" if "w < n" for w
    proof -
      from a(1) that v(1) have "lru s w + 1 \<le> lru s v + 1" by simp
      moreover from bound that v(1) have "lru s w < 2 ^ 32 - 1" "lru s v < 2 ^ 32 - 1" by simp_all
      ultimately show ?thesis by (simp only: succ_order_small)
    qed
    moreover have "lru s w < lru s v" if "w < v" for w
    proof -
      from that v(1) have wn: "w < n" by simp
      with a(2) that v(1) have "lru s w + 1 < lru s v + 1" by simp
      moreover from bound wn v(1) have "lru s w < 2 ^ 32 - 1" "lru s v < 2 ^ 32 - 1" by simp_all
      ultimately show ?thesis by (simp only: succ_order_small)
    qed
    ultimately show ?thesis using False by auto
  qed
  from v(1,2) t vl l c show ?thesis by blast
qed

theorem insert_prefers_invalid_then_lru_witness:
  "sim_set_associative_do
     \<lparr>tags = (\<lambda>w. 1), lru = (\<lambda>w. if w = 1 then 7 else 3), valid = (\<lambda>w. True)\<rparr> 9 4 False =
   Some (\<lparr>tags = (\<lambda>w. if w = 1 then 9 else 1),
          lru = (\<lambda>w. if w = 1 then 0 else if w < 4 then 4 else 3),
          valid = (\<lambda>w. True)\<rparr>, False)
   \<and>
   sim_set_associative_do
     \<lparr>tags = (\<lambda>w. 1), lru = (\<lambda>w. 3), valid = (\<lambda>w. w < 2)\<rparr> 9 4 False =
   Some (\<lparr>tags = (\<lambda>w. if w = 2 then 9 else 1),
          lru = (\<lambda>w. if w = 2 then 0 else if w < 4 then 4 else 3),
          valid = (\<lambda>w. w < 3)\<rparr>, False)"
proof
  let ?s = "\<lparr>tags = (\<lambda>w. 1 :: u64), lru = (\<lambda>w. if w = 1 then 7 else 3 :: u64), valid = (\<lambda>w :: nat. True)\<rparr>"
  have h: "2 \<le> (4 :: nat)" "4 \<le> (16 :: nat)" "\<forall>w<4. tags ?s w \<noteq> 9"
    "\<forall>w<4. lru ?s w < 2 ^ 32 - 1" by auto
  have full: "\<not> (\<exists>w<4. \<not> valid ?s w)" by simp
  from insert_prefers_invalid_then_lru [OF h] obtain v s' where v: "v < 4"
    "sim_set_associative_do ?s 9 4 False = Some (s', False)"
    "tags s' = (tags ?s)(v := 9)" "valid s' = (valid ?s)(v := True)"
    "lru s' = (\<lambda>w. if w = v then 0 else if w < 4 then lru ?s w + 1 else lru ?s w)"
    "\<forall>w<4. lru ?s w \<le> lru ?s v"
    unfolding if_not_P [OF full] by blast
  have "(1 :: nat) < 4" by simp
  with v(6) have "lru ?s 1 \<le> lru ?s v" by blast
  then have v1: "v = 1" by (simp split: if_splits)
  have "s' = \<lparr>tags = tags s', lru = lru s', valid = valid s'\<rparr>" by simp
  also have "\<dots> = \<lparr>tags = (\<lambda>w. if w = 1 then 9 else 1),
          lru = (\<lambda>w. if w = 1 then 0 else if w < 4 then 4 else 3), valid = (\<lambda>w. True)\<rparr>"
    unfolding v(3,4,5) v1 by (simp add: fun_eq_iff)
  finally show "sim_set_associative_do ?s 9 4 False =
     Some (\<lparr>tags = (\<lambda>w. if w = 1 then 9 else 1),
          lru = (\<lambda>w. if w = 1 then 0 else if w < 4 then 4 else 3), valid = (\<lambda>w. True)\<rparr>, False)"
    using v(2) by simp
next
  let ?s = "\<lparr>tags = (\<lambda>w. 1 :: u64), lru = (\<lambda>w. 3 :: u64), valid = (\<lambda>w :: nat. w < 2)\<rparr>"
  have ex: "\<exists>w<4. \<not> valid ?s w" by (rule exI [of _ 2]) simp
  have h: "2 \<le> (4 :: nat)" "4 \<le> (16 :: nat)" "\<forall>w<4. tags ?s w \<noteq> 9"
    "\<forall>w<4. lru ?s w < 2 ^ 32 - 1" by auto
  from insert_prefers_invalid_then_lru [OF h] obtain v s' where v: "v < 4"
    "sim_set_associative_do ?s 9 4 False = Some (s', False)"
    "tags s' = (tags ?s)(v := 9)" "valid s' = (valid ?s)(v := True)"
    "lru s' = (\<lambda>w. if w = v then 0 else if w < 4 then lru ?s w + 1 else lru ?s w)"
    "\<not> valid ?s v" "\<forall>w<v. valid ?s w"
    unfolding if_P [OF ex] by blast
  from v(6) have "2 \<le> v" by simp
  moreover have "v \<le> 2"
  proof (rule ccontr)
    assume "\<not> v \<le> 2"
    then have "2 < v" by simp
    with v(7) have "valid ?s 2" by blast
    then show False by simp
  qed
  ultimately have v2: "v = 2" by simp
  have "s' = \<lparr>tags = tags s', lru = lru s', valid = valid s'\<rparr>" by simp
  also have "\<dots> = \<lparr>tags = (\<lambda>w. if w = 2 then 9 else 1),
          lru = (\<lambda>w. if w = 2 then 0 else if w < 4 then 4 else 3), valid = (\<lambda>w. w < 3)\<rparr>"
    unfolding v(3,4,5) v2 by (auto simp: fun_eq_iff)
  finally show "sim_set_associative_do ?s 9 4 False =
     Some (\<lparr>tags = (\<lambda>w. if w = 2 then 9 else 1),
          lru = (\<lambda>w. if w = 2 then 0 else if w < 4 then 4 else 3), valid = (\<lambda>w. w < 3)\<rparr>, False)"
    using v(2) by simp
qed

section \<open>Allocation in the fully associative engine with counters\<close>




section \<open>Updates of the pseudo-LRU tree\<close>

text \<open>
  Claim C7. In the pseudo-LRU engine a hit at the leaf \<open>block\<close> sets the bit of every
  ancestor on the way from the leaf to the root so that it marks as stale the sibling of
  the child just visited, and changes nothing else. A miss writes the tag into exactly
  the leaf that is reached from the root by following, in the tree as it was, the stale
  child of each node; the bit of every node visited is flipped, so that it marks the
  sibling of the child taken, and nothing else changes.
\<close>

theorem pseudo_lru_tree_updates:
  "(plru_scan lc (drop_bit (unat block_id_offset) (ucast (addr t))) 511 = Some block \<longrightarrow>
      511 \<le> block \<and> block < 1023 \<and>
      plru_iter t (lc, i) = (plru_touch lc block, i\<lparr>hits := hits i + 1\<rparr>) \<and>
      (\<forall>n \<in> set (path_up block).
         plru_stale (plru_touch lc block) ((n - 1) div 2) = sibling n) \<and>
      (\<forall>m. 2 * m + 1 \<notin> set (path_up block) \<and> 2 * m + 2 \<notin> set (path_up block) \<longrightarrow>
         plru_touch lc block m = lc m)) \<and>
   (plru_scan lc (drop_bit (unat block_id_offset) (ucast (addr t))) 511 = None \<longrightarrow>
      511 \<le> descend lc 0 \<and> descend lc 0 < 1023 \<and>
      plru_iter t (lc, i) =
        ((fst (plru_walk lc 0))(descend lc 0 := drop_bit (unat block_id_offset) (ucast (addr t))), i) \<and>
      (\<forall>n \<in> set (path_down lc 0).
         plru_stale (fst (plru_walk lc 0)) n = sibling (plru_stale lc n)) \<and>
      (\<forall>m. m \<notin> set (path_down lc 0) \<longrightarrow> fst (plru_walk lc 0) m = lc m))"
proof (intro conjI impI)
  assume s: "plru_scan lc (drop_bit (unat block_id_offset) (ucast (addr t))) 511 = Some block"
  from plru_scan_Some [OF s] show b: "511 \<le> block" and "block < 1023" by simp_all
  then have pos: "0 < block" by simp
  show "plru_iter t (lc, i) = (plru_touch lc block, i\<lparr>hits := hits i + 1\<rparr>)"
    using s by (simp add: plru_iter_def Let_def)
  show "\<forall>n \<in> set (path_up block). plru_stale (plru_touch lc block) ((n - 1) div 2) = sibling n"
    using pos by (blast intro: touch_points_away)
  show "\<forall>m. 2 * m + 1 \<notin> set (path_up block) \<and> 2 * m + 2 \<notin> set (path_up block) \<longrightarrow>
         plru_touch lc block m = lc m"
    by (simp add: plru_touch_eq [OF pos])
next
  assume s: "plru_scan lc (drop_bit (unat block_id_offset) (ucast (addr t))) 511 = None"
  have "(0 :: nat) < 1023" by simp
  from descend_range [OF this, of lc] show "511 \<le> descend lc 0" "descend lc 0 < 1023"
    by simp_all
  show "plru_iter t (lc, i) =
        ((fst (plru_walk lc 0))(descend lc 0 := drop_bit (unat block_id_offset) (ucast (addr t))), i)"
    using s by (simp add: plru_iter_def Let_def plru_walk_eq)
  show "\<forall>n \<in> set (path_down lc 0). plru_stale (fst (plru_walk lc 0)) n = sibling (plru_stale lc n)"
    by (blast intro: walk_points_away)
  show "\<forall>m. m \<notin> set (path_down lc 0) \<longrightarrow> fst (plru_walk lc 0) m = lc m"
    by (simp add: plru_walk_eq)
qed

theorem pseudo_lru_tree_updates_witness:
  "plru_iter \<lparr>op = LOAD, addr = 0xA0\<rparr>
     (\<lambda>_. 0, \<lparr>hits = 0, accesses = 1, kb = 0, ways = 0, options = OPTION_NONE\<rparr>) =
   ((fst (plru_walk (\<lambda>_. 0) 0))(1022 := 5),
    \<lparr>hits = 0, accesses = 1, kb = 0, ways = 0, options = OPTION_NONE\<rparr>) \<and>
   plru_stale (fst (plru_walk (\<lambda>_. 0) 0)) 0 = 1 \<and>
   plru_iter \<lparr>op = LOAD, addr = 0xA0\<rparr>
     ((\<lambda>_. 0)(600 := 5), \<lparr>hits = 0, accesses = 1, kb = 0, ways = 0, options = OPTION_NONE\<rparr>) =
   (plru_touch ((\<lambda>_. 0)(600 := 5)) 600,
    \<lparr>hits = 1, accesses = 1, kb = 0, ways = 0, options = OPTION_NONE\<rparr>) \<and>
   plru_stale (plru_touch ((\<lambda>_. 0)(600 := 5)) 600) 299 = 599"
proof -
  let ?t = "\<lparr>op = LOAD, addr = 0xA0\<rparr>"
  let ?i = "\<lparr>hits = 0, accesses = 1, kb = 0, ways = 0, options = OPTION_NONE\<rparr>"
  let ?lc0 = "(\<lambda>_. 0) :: lru_cache_t"
  let ?lc1 = "?lc0(600 := 5)"
  have tag: "drop_bit (unat block_id_offset) (ucast (addr ?t) :: u64) = 5"
    by (simp add: block_id_offset_def)
  have miss: "plru_scan ?lc0 (drop_bit (unat block_id_offset) (ucast (addr ?t))) 511 = None"
    unfolding tag by (rule plru_scan_None) simp
  have hit: "plru_scan ?lc1 (drop_bit (unat block_id_offset) (ucast (addr ?t))) 511 = Some 600"
    unfolding tag by (rule plru_scan_found) simp_all
  have d: "descend ?lc0 0 = 1022" by (simp add: descend.simps plru_stale_def)
  have root: "0 \<in> set (path_down ?lc0 0)" by (simp add: path_down_node)
  have leaf: "600 \<in> set (path_up 600)" by (simp add: path_up_pos)
  note m = pseudo_lru_tree_updates [of ?lc0 ?t 0 ?i, THEN conjunct2, rule_format, OF miss]
  note h = pseudo_lru_tree_updates [of ?lc1 ?t 600 ?i, THEN conjunct1, rule_format, OF hit]
  from m have 1: "plru_iter ?t (?lc0, ?i) = ((fst (plru_walk ?lc0 0))(1022 := 5), ?i)"
    unfolding d tag by blast
  from m root have "plru_stale (fst (plru_walk ?lc0 0)) 0 = sibling (plru_stale ?lc0 0)" by blast
  then have 2: "plru_stale (fst (plru_walk ?lc0 0)) 0 = 1"
    by (simp add: plru_stale_def sibling_def)
  from h have 3: "plru_iter ?t (?lc1, ?i) = (plru_touch ?lc1 600, ?i\<lparr>hits := hits ?i + 1\<rparr>)"
    by blast
  from h leaf have "plru_stale (plru_touch ?lc1 600) ((600 - 1) div 2) = sibling 600" by blast
  then have 4: "plru_stale (plru_touch ?lc1 600) 299 = 599" by (simp add: sibling_def)
  from 1 2 3 4 show ?thesis by simp
qed

section \<open>The no-write-allocate policy\<close>

text \<open>
  Claim C8, as stated: under the no-write-allocate policy (\<^verbatim>\<open>OPTION_WRITE_ON_MISS\<close>) a store
  that misses leaves every tag unchanged, so that the trace Store A, Load A on an empty
  cache misses on both accesses. It does not when the cache is direct-mapped: the
  \<^verbatim>\<open>ways == 1\<close> branch of \<^verbatim>\<open>sim_set_associative\<close> never reads \<^verbatim>\<open>i->options\<close>. With 16 KB,
  one way and A = \<^verbatim>\<open>0x4000\<close> the store misses (the run over the store alone reports no
  hit), and the load that follows hits.
\<close>

theorem no_write_allocate_direct_counterexample:
  "map_option hits
     (sim_set_associative \<lparr>hits = 0, accesses = 0, kb = 16, ways = 1, options = OPTION_WRITE_ON_MISS\<rparr>
        [\<lparr>op = STORE, addr = 0x4000\<rparr>]) = Some 0 \<and>
   map_option hits
     (sim_set_associative \<lparr>hits = 0, accesses = 0, kb = 16, ways = 1, options = OPTION_WRITE_ON_MISS\<rparr>
        [\<lparr>op = STORE, addr = 0x4000\<rparr>, \<lparr>op = LOAD, addr = 0x4000\<rparr>]) = Some 1"
  by code_simp

text \<open>
  Claim C8, amended. Under \<^verbatim>\<open>OPTION_WRITE_ON_MISS\<close>, on the path with 2 to 16 ways, a store
  that misses leaves the cache as it is but for the recency counters of its set, which
  the scan has aged by one: the tags and the valid flags are unchanged, and so is
  \<^verbatim>\<open>ThreadInfo\<close>. Consequently, when the store of the trace Store A, Load A misses on the
  empty cache, the load misses too: the run reports no hit. On the direct-mapped path
  (\<^verbatim>\<open>ways == 1\<close>) the policy has no effect: every access that misses, a store included,
  writes its tag into the slot of its set.
\<close>

theorem no_write_allocate:
  "(options i = OPTION_WRITE_ON_MISS \<and> op t = STORE \<and> 2 \<le> unat (ways i) \<and> unat (ways i) \<le> 16 \<and>
    sa_decompose i (ucast (addr t)) = (st, tag) \<and>
    (\<forall>w<unat (ways i). tags (c (unat st)) w \<noteq> tag) \<longrightarrow>
      (\<exists>s'. sa_iter (sa_sets i) (sa_log i) (sa_mask i) t (c, i) = Some (c(unat st := s'), i) \<and>
            tags s' = tags (c (unat st)) \<and>
            valid s' = valid (c (unat st)) \<and>
            lru s' = (\<lambda>w. if w < unat (ways i) then lru (c (unat st)) w + 1
                           else lru (c (unat st)) w))) \<and>
   (options i = OPTION_WRITE_ON_MISS \<and> 2 \<le> unat (ways i) \<and> unat (ways i) \<le> 16 \<and> hits i = 0 \<and>
    map_option hits (sim_set_associative i [\<lparr>op = STORE, addr = A\<rparr>]) = Some 0 \<longrightarrow>
      map_option hits (sim_set_associative i [\<lparr>op = STORE, addr = A\<rparr>, \<lparr>op = LOAD, addr = A\<rparr>])
        = Some 0) \<and>
   (ways i = 1 \<and> sa_decompose i (ucast (addr t)) = (st, tag) \<and> unat st < 1024 \<and>
    tags (c (unat st)) 0 \<noteq> tag \<longrightarrow>
      sa_iter (sa_sets i) (sa_log i) (sa_mask i) t (c, i) =
        Some (c(unat st := (c (unat st))\<lparr>tags := (tags (c (unat st)))(0 := tag)\<rparr>), i))"
proof (intro conjI impI)
  assume a: "options i = OPTION_WRITE_ON_MISS \<and> op t = STORE \<and> 2 \<le> unat (ways i) \<and>
    unat (ways i) \<le> 16 \<and> sa_decompose i (ucast (addr t)) = (st, tag) \<and>
    (\<forall>w<unat (ways i). tags (c (unat st)) w \<noteq> tag)"
  let ?s' = "aged (c (unat st)) (unat (ways i))"
  from no_write_allocate_assoc [of i t st tag c, THEN conjunct1] a
  have "sa_iter (sa_sets i) (sa_log i) (sa_mask i) t (c, i) = Some (c(unat st := ?s'), i)"
    by blast
  moreover have "tags ?s' = tags (c (unat st))" "valid ?s' = valid (c (unat st))"
    "lru ?s' = (\<lambda>w. if w < unat (ways i) then lru (c (unat st)) w + 1 else lru (c (unat st)) w)"
    by (simp_all add: aged_def)
  ultimately show "\<exists>s'. sa_iter (sa_sets i) (sa_log i) (sa_mask i) t (c, i) = Some (c(unat st := s'), i) \<and>
            tags s' = tags (c (unat st)) \<and> valid s' = valid (c (unat st)) \<and>
            lru s' = (\<lambda>w. if w < unat (ways i) then lru (c (unat st)) w + 1
                           else lru (c (unat st)) w)"
    by blast
next
  assume "options i = OPTION_WRITE_ON_MISS \<and> 2 \<le> unat (ways i) \<and> unat (ways i) \<le> 16 \<and> hits i = 0 \<and>
    map_option hits (sim_set_associative i [\<lparr>op = STORE, addr = A\<rparr>]) = Some 0"
  with no_write_allocate_assoc [of i t st tag c A, THEN conjunct2]
  show "map_option hits (sim_set_associative i [\<lparr>op = STORE, addr = A\<rparr>, \<lparr>op = LOAD, addr = A\<rparr>])
        = Some 0"
    by blast
next
  assume "ways i = 1 \<and> sa_decompose i (ucast (addr t)) = (st, tag) \<and> unat st < 1024 \<and>
    tags (c (unat st)) 0 \<noteq> tag"
  then show "sa_iter (sa_sets i) (sa_log i) (sa_mask i) t (c, i) =
        Some (c(unat st := (c (unat st))\<lparr>tags := (tags (c (unat st)))(0 := tag)\<rparr>), i)"
    by (intro sa_iter_direct_miss) simp_all
qed

theorem no_write_allocate_witness:
  "sa_iter (sa_sets \<lparr>hits = 0, accesses = 0, kb = 16, ways = 2, options = OPTION_WRITE_ON_MISS\<rparr>)
      (sa_log \<lparr>hits = 0, accesses = 0, kb = 16, ways = 2, options = OPTION_WRITE_ON_MISS\<rparr>)
      (sa_mask \<lparr>hits = 0, accesses = 0, kb = 16, ways = 2, options = OPTION_WRITE_ON_MISS\<rparr>)
      \<lparr>op = STORE, addr = 0x4000\<rparr>
      (empty_cache, \<lparr>hits = 0, accesses = 0, kb = 16, ways = 2, options = OPTION_WRITE_ON_MISS\<rparr>) =
    Some (empty_cache(0 := \<lparr>tags = (\<lambda>w. 0), lru = (\<lambda>w. if w < 2 then 1 else 0),
                             valid = (\<lambda>w. False)\<rparr>),
          \<lparr>hits = 0, accesses = 0, kb = 16, ways = 2, options = OPTION_WRITE_ON_MISS\<rparr>) \<and>
   map_option hits
     (sim_set_associative \<lparr>hits = 0, accesses = 0, kb = 16, ways = 2, options = OPTION_WRITE_ON_MISS\<rparr>
        [\<lparr>op = STORE, addr = 0x4000\<rparr>, \<lparr>op = LOAD, addr = 0x4000\<rparr>]) = Some 0 \<and>
   sa_iter (sa_sets \<lparr>hits = 0, accesses = 0, kb = 16, ways = 1, options = OPTION_WRITE_ON_MISS\<rparr>)
      (sa_log \<lparr>hits = 0, accesses = 0, kb = 16, ways = 1, options = OPTION_WRITE_ON_MISS\<rparr>)
      (sa_mask \<lparr>hits = 0, accesses = 0, kb = 16, ways = 1, options = OPTION_WRITE_ON_MISS\<rparr>)
      \<lparr>op = STORE, addr = 0x4000\<rparr>
      (empty_cache, \<lparr>hits = 0, accesses = 0, kb = 16, ways = 1, options = OPTION_WRITE_ON_MISS\<rparr>) =
    Some (empty_cache(0 := \<lparr>tags = (\<lambda>w. if w = 0 then 16 else 0), lru = (\<lambda>w. 0),
                             valid = (\<lambda>w. False)\<rparr>),
          \<lparr>hits = 0, accesses = 0, kb = 16, ways = 1, options = OPTION_WRITE_ON_MISS\<rparr>)"
proof -
  let ?i = "\<lparr>hits = 0, accesses = 0, kb = 16, ways = 2, options = OPTION_WRITE_ON_MISS\<rparr>"
  let ?d = "\<lparr>hits = 0, accesses = 0, kb = 16, ways = 1, options = OPTION_WRITE_ON_MISS\<rparr>"
  let ?S = "\<lparr>op = STORE, addr = 0x4000\<rparr>"
  have e: "empty_cache (unat (0 :: u64)) = empty_set" by (simp add: empty_cache_def)
  have d: "sa_decompose ?i (ucast (addr ?S)) = (0, 2)" by code_simp
  have dd: "sa_decompose ?d (ucast (addr ?S)) = (0, 16)" by code_simp
  have m: "map_option hits (sim_set_associative ?i [?S]) = Some 0" by code_simp
  have h1: "options ?i = OPTION_WRITE_ON_MISS \<and> op ?S = STORE \<and> 2 \<le> unat (ways ?i) \<and>
    unat (ways ?i) \<le> 16 \<and> sa_decompose ?i (ucast (addr ?S)) = (0, 2) \<and>
    (\<forall>w<unat (ways ?i). tags (empty_cache (unat (0 :: u64))) w \<noteq> 2)"
    using d by (simp add: empty_cache_def empty_set_def)
  have h2: "options ?i = OPTION_WRITE_ON_MISS \<and> 2 \<le> unat (ways ?i) \<and> unat (ways ?i) \<le> 16 \<and>
    hits ?i = 0 \<and> map_option hits (sim_set_associative ?i [?S]) = Some 0"
    using m by simp
  have h3: "ways ?d = 1 \<and> sa_decompose ?d (ucast (addr ?S)) = (0, 16) \<and> unat (0 :: u64) < 1024 \<and>
    tags (empty_cache (unat (0 :: u64))) 0 \<noteq> 16"
    using dd by (simp add: empty_cache_def empty_set_def)
  note t = no_write_allocate [of ?i ?S 0 2 empty_cache "0x4000"]
  from t h1 obtain s' where s': "sa_iter (sa_sets ?i) (sa_log ?i) (sa_mask ?i) ?S (empty_cache, ?i) =
      Some (empty_cache(unat (0 :: u64) := s'), ?i)"
    "tags s' = tags (empty_cache (unat (0 :: u64)))" "valid s' = valid (empty_cache (unat (0 :: u64)))"
    "lru s' = (\<lambda>w. if w < unat (ways ?i) then lru (empty_cache (unat (0 :: u64))) w + 1
                    else lru (empty_cache (unat (0 :: u64))) w)"
    by blast
  have "s' = \<lparr>tags = tags s', lru = lru s', valid = valid s'\<rparr>" by simp
  also have "\<dots> = \<lparr>tags = (\<lambda>w. 0), lru = (\<lambda>w. if w < 2 then 1 else 0), valid = (\<lambda>w. False)\<rparr>"
    unfolding s'(2,3,4) e by (simp add: empty_set_def fun_eq_iff)
  finally have 1: "sa_iter (sa_sets ?i) (sa_log ?i) (sa_mask ?i) ?S (empty_cache, ?i) =
      Some (empty_cache(0 := \<lparr>tags = (\<lambda>w. 0), lru = (\<lambda>w. if w < 2 then 1 else 0),
                               valid = (\<lambda>w. False)\<rparr>), ?i)"
    using s'(1) by simp
  from t h2 have 2: "map_option hits (sim_set_associative ?i [?S, \<lparr>op = LOAD, addr = 0x4000\<rparr>]) = Some 0"
    by blast
  from no_write_allocate [of ?d ?S 0 16 empty_cache "0x4000"] h3
  have "sa_iter (sa_sets ?d) (sa_log ?d) (sa_mask ?d) ?S (empty_cache, ?d) =
      Some (empty_cache(unat (0 :: u64) := (empty_cache (unat (0 :: u64)))
              \<lparr>tags := (tags (empty_cache (unat (0 :: u64))))(0 := 16)\<rparr>), ?d)"
    by blast
  moreover have "(empty_cache (unat (0 :: u64)))\<lparr>tags := (tags (empty_cache (unat (0 :: u64))))(0 := 16)\<rparr>
      = \<lparr>tags = (\<lambda>w. if w = 0 then 16 else 0), lru = (\<lambda>w. 0), valid = (\<lambda>w. False)\<rparr>"
    unfolding e by (simp add: empty_set_def fun_eq_iff)
  ultimately have 3: "sa_iter (sa_sets ?d) (sa_log ?d) (sa_mask ?d) ?S (empty_cache, ?d) =
      Some (empty_cache(0 := \<lparr>tags = (\<lambda>w. if w = 0 then 16 else 0), lru = (\<lambda>w. 0),
                               valid = (\<lambda>w. False)\<rparr>), ?d)"
    by simp
  from 1 2 3 show ?thesis by (intro conjI)
qed

section \<open>Prefetch policies\<close>




section \<open>Monotonicity in the cache size\<close>

text \<open>
  Claim C10. For a fixed trace and a fixed number of ways, a run with the larger
  \<^verbatim>\<open>kb\<close> never reports fewer hits than the run with the smaller one. With 2 to 16 ways the
  engine does not read \<^verbatim>\<open>kb\<close> and the two hit counts are equal; with one way (\<^verbatim>\<open>kb\<close> from 1
  to 63, so that the index stays inside \<^verbatim>\<open>cache[1024]\<close>) every access that hits in the
  smaller cache hits in the larger one.
\<close>

theorem larger_cache_never_fewer_hits:
  assumes len: "length g_traces \<le> 15000000" and fresh: "hits i = 0" and le: "k1 \<le> k2"
    and cfg: "ways i = 1 \<and> 1 \<le> unat k1 \<and> unat k2 < 64 \<or> 2 \<le> unat (ways i) \<and> unat (ways i) \<le> 16"
  shows "\<exists>i1 i2. sim_set_associative (i\<lparr>kb := k1\<rparr>) g_traces = Some i1 \<and>
                 sim_set_associative (i\<lparr>kb := k2\<rparr>) g_traces = Some i2 \<and>
                 hits i1 \<le> hits i2"
proof (cases "ways i = 1")
  case True
  with cfg have kb: "1 \<le> unat k1" "unat k2 < 64" by auto
  from le have le': "unat k1 \<le> unat k2" by (simp add: word_le_nat_alt)
  with kb have kb': "unat k1 < 64" "1 \<le> unat k2" by simp_all
  let ?K1 = "floor_log2 (unat k1 * 32)" and ?K2 = "floor_log2 (unat k2 * 32)"
  let ?j1 = "i\<lparr>kb := k1\<rparr>" and ?j2 = "i\<lparr>kb := k2\<rparr>"
  let ?n = "of_nat (length g_traces) :: u32"
  have m1: "sa_mask ?j1 = mask ?K1"
    using sa_mask_direct [of ?j1] True kb'(1) by simp
  have m2: "sa_mask ?j2 = mask ?K2"
    using sa_mask_direct [of ?j2] True kb(2) by simp
  have K: "5 \<le> ?K1" "?K2 \<le> 10"
    using direct_mask_bits(1) [OF kb(1) kb'(1)] direct_mask_bits(2) [OF kb'(2) kb(2)] by simp_all
  from le' have "unat k1 * 32 \<le> unat k2 * 32" by simp
  then have K12: "?K1 \<le> ?K2" by (rule floor_log2_mono)
  have "\<exists>c1' i1' c2' i2'.
          sa_loop (sa_sets ?j1) (sa_log ?j1) (mask ?K1) g_traces (empty_cache, ?j1\<lparr>accesses := ?n\<rparr>)
            = Some (c1', i1') \<and>
          sa_loop (sa_sets ?j2) (sa_log ?j2) (mask ?K2) g_traces (empty_cache, ?j2\<lparr>accesses := ?n\<rparr>)
            = Some (c2', i2') \<and>
          unat (hits i1') \<le> unat (hits i2')"
  proof (rule dm_lockstep [OF K(1) K12 K(2)])
    show "ways (?j1\<lparr>accesses := ?n\<rparr>) = 1" "ways (?j2\<lparr>accesses := ?n\<rparr>) = 1"
      using True by simp_all
    show "dm_rel ?K1 ?K2 empty_cache empty_cache" by (rule dm_rel_empty)
    show "unat (hits (?j1\<lparr>accesses := ?n\<rparr>)) \<le> unat (hits (?j2\<lparr>accesses := ?n\<rparr>))"
      by simp
    show "unat (hits (?j2\<lparr>accesses := ?n\<rparr>)) + length g_traces < 2 ^ 32"
      using len fresh by simp
  qed
  then obtain c1' i1' c2' i2' where
    r: "sa_loop (sa_sets ?j1) (sa_log ?j1) (mask ?K1) g_traces (empty_cache, ?j1\<lparr>accesses := ?n\<rparr>)
          = Some (c1', i1')"
       "sa_loop (sa_sets ?j2) (sa_log ?j2) (mask ?K2) g_traces (empty_cache, ?j2\<lparr>accesses := ?n\<rparr>)
          = Some (c2', i2')"
       "unat (hits i1') \<le> unat (hits i2')"
    by blast
  have "sim_set_associative ?j1 g_traces = Some i1'"
    using True r(1) by (simp add: sim_set_associative_def m1)
  moreover have "sim_set_associative ?j2 g_traces = Some i2'"
    using True r(2) by (simp add: sim_set_associative_def m2)
  moreover have "hits i1' \<le> hits i2'" using r(3) by (simp add: word_le_nat_alt)
  ultimately show ?thesis by blast
next
  case False
  with cfg have w: "2 \<le> unat (ways i)" "unat (ways i) \<le> 16" by auto
  then have "ways i = 1 \<and> unat (kb i) < 64 \<or> 2 \<le> unat (ways i) \<and> unat (ways i) \<le> 16" by simp
  from sim_set_associative_defined [OF this] obtain i' where
    "sim_set_associative i g_traces = Some i'" by blast
  then have "sim_set_associative (i\<lparr>kb := k1\<rparr>) g_traces = Some (i'\<lparr>kb := k1\<rparr>)"
    "sim_set_associative (i\<lparr>kb := k2\<rparr>) g_traces = Some (i'\<lparr>kb := k2\<rparr>)"
    using False by (simp_all add: sim_set_associative_kb)
  moreover have "hits (i'\<lparr>kb := k1\<rparr>) \<le> hits (i'\<lparr>kb := k2\<rparr>)" by simp
  ultimately show ?thesis by blast
qed

theorem larger_cache_never_fewer_hits_witness:
  "\<exists>i1 i2.
     sim_set_associative \<lparr>hits = 0, accesses = 0, kb = 1, ways = 1, options = OPTION_NONE\<rparr>
       [\<lparr>op = LOAD, addr = 0x400\<rparr>, \<lparr>op = LOAD, addr = 0x800\<rparr>, \<lparr>op = LOAD, addr = 0x400\<rparr>] = Some i1 \<and>
     sim_set_associative \<lparr>hits = 0, accesses = 0, kb = 4, ways = 1, options = OPTION_NONE\<rparr>
       [\<lparr>op = LOAD, addr = 0x400\<rparr>, \<lparr>op = LOAD, addr = 0x800\<rparr>, \<lparr>op = LOAD, addr = 0x400\<rparr>] = Some i2 \<and>
     hits i1 \<le> hits i2"
proof -
  let ?i = "\<lparr>hits = 0, accesses = 0, kb = 0, ways = 1, options = OPTION_NONE\<rparr>"
  let ?tr = "[\<lparr>op = LOAD, addr = 0x400\<rparr>, \<lparr>op = LOAD, addr = 0x800\<rparr>, \<lparr>op = LOAD, addr = 0x400\<rparr>]"
  have h: "length ?tr \<le> 15000000" "hits ?i = 0" "(1 :: u32) \<le> 4"
    "ways ?i = 1 \<and> 1 \<le> unat (1 :: u32) \<and> unat (4 :: u32) < 64 \<or>
     2 \<le> unat (ways ?i) \<and> unat (ways ?i) \<le> 16"
    by simp_all
  from larger_cache_never_fewer_hits [OF h] show ?thesis by simp
qed

end
